theory Spec2Isabelle
  imports Main "HOL-Library.AList"
begin

section \<open>JavaScript values used by the search\<close>

text \<open>
  The scores handled by \<^verbatim>\<open>getPath\<close> are JavaScript numbers, that is doubles. The
  coordinates of a cell are integers, and the search only adds and subtracts, so the
  numbers that can arise are integers, the two infinities (\<^verbatim>\<open>Infinity\<close> is also the
  default of \<^verbatim>\<open>mapGet\<close>) and \<^verbatim>\<open>NaN\<close> (\<^verbatim>\<open>undefined\<close> used as a number). \<open>Num 0\<close>
  stands for both zeros, which no operation used here tells apart.
\<close>

datatype number = Num int | Infinity | MinusInfinity | NaN

datatype error = TypeError

text \<open>
  The double nearest to an integer. A double has 53 significant bits, so an integer of
  magnitude up to \<open>2^53\<close> is a double. A larger magnitude \<open>m\<close>, with \<open>e\<close> bits beyond
  the first 53, is rounded to the nearest multiple of \<open>2^e\<close>, and when it lies halfway
  between two multiples, to the one whose quotient is even. A rounded magnitude of
  \<open>2^1024\<close> or more is infinite.
\<close>

function excess_bits :: "nat \<Rightarrow> nat" where
  "excess_bits m = (if m < 2 ^ 53 then 0 else Suc (excess_bits (m div 2)))"
  by pat_completeness auto
termination by (relation "measure id") auto

declare excess_bits.simps [simp del]

definition round_even :: "nat \<Rightarrow> nat" where
  "round_even m =
     (let ulp = 2 ^ excess_bits m; q = m div ulp; r = m mod ulp
      in if 2 * r < ulp \<or> (2 * r = ulp \<and> even q) then q * ulp else (q + 1) * ulp)"

definition double_of_int :: "int \<Rightarrow> number" where
  "double_of_int k =
     (if \<bar>k\<bar> < 2 ^ 53 then Num k
      else
        (let m = round_even (nat \<bar>k\<bar>)
         in if 2 ^ 1024 \<le> m then (if k < 0 then MinusInfinity else Infinity)
            else Num (if k < 0 then - int m else int m)))"

text \<open>
  \<^verbatim>\<open>a + b\<close> and \<^verbatim>\<open>a - b\<close> on numbers: the exact result, rounded. Infinities of
  opposite signs cancel to \<^verbatim>\<open>NaN\<close>.
\<close>

fun num_add :: "number \<Rightarrow> number \<Rightarrow> number" where
  "num_add (Num a) (Num b) = double_of_int (a + b)"
| "num_add (Num a) Infinity = Infinity"
| "num_add (Num a) MinusInfinity = MinusInfinity"
| "num_add Infinity (Num b) = Infinity"
| "num_add Infinity Infinity = Infinity"
| "num_add Infinity MinusInfinity = NaN"
| "num_add MinusInfinity (Num b) = MinusInfinity"
| "num_add MinusInfinity Infinity = NaN"
| "num_add MinusInfinity MinusInfinity = MinusInfinity"
| "num_add NaN b = NaN"
| "num_add (Num a) NaN = NaN"
| "num_add Infinity NaN = NaN"
| "num_add MinusInfinity NaN = NaN"

fun num_sub :: "number \<Rightarrow> number \<Rightarrow> number" where
  "num_sub (Num a) (Num b) = double_of_int (a - b)"
| "num_sub (Num a) Infinity = MinusInfinity"
| "num_sub (Num a) MinusInfinity = Infinity"
| "num_sub Infinity (Num b) = Infinity"
| "num_sub Infinity Infinity = NaN"
| "num_sub Infinity MinusInfinity = Infinity"
| "num_sub MinusInfinity (Num b) = MinusInfinity"
| "num_sub MinusInfinity Infinity = MinusInfinity"
| "num_sub MinusInfinity MinusInfinity = NaN"
| "num_sub NaN b = NaN"
| "num_sub (Num a) NaN = NaN"
| "num_sub Infinity NaN = NaN"
| "num_sub MinusInfinity NaN = NaN"

text \<open>\<^verbatim>\<open>Math.abs\<close>.\<close>

fun num_abs :: "number \<Rightarrow> number" where
  "num_abs (Num a) = Num \<bar>a\<bar>"
| "num_abs Infinity = Infinity"
| "num_abs MinusInfinity = Infinity"
| "num_abs NaN = NaN"

text \<open>\<^verbatim>\<open>a < b\<close> on numbers: false as soon as one side is \<^verbatim>\<open>NaN\<close>.\<close>

fun num_lt :: "number \<Rightarrow> number \<Rightarrow> bool" where
  "num_lt (Num a) (Num b) = (a < b)"
| "num_lt (Num a) Infinity = True"
| "num_lt (Num a) MinusInfinity = False"
| "num_lt Infinity (Num b) = False"
| "num_lt Infinity Infinity = False"
| "num_lt Infinity MinusInfinity = False"
| "num_lt MinusInfinity (Num b) = True"
| "num_lt MinusInfinity Infinity = True"
| "num_lt MinusInfinity MinusInfinity = False"
| "num_lt NaN b = False"
| "num_lt (Num a) NaN = False"
| "num_lt Infinity NaN = False"
| "num_lt MinusInfinity NaN = False"

text \<open>\<^verbatim>\<open>a >= b\<close> on numbers: false as soon as one side is \<^verbatim>\<open>NaN\<close>.\<close>

fun num_ge :: "number \<Rightarrow> number \<Rightarrow> bool" where
  "num_ge (Num a) (Num b) = (b \<le> a)"
| "num_ge (Num a) Infinity = False"
| "num_ge (Num a) MinusInfinity = True"
| "num_ge Infinity (Num b) = True"
| "num_ge Infinity Infinity = True"
| "num_ge Infinity MinusInfinity = True"
| "num_ge MinusInfinity (Num b) = False"
| "num_ge MinusInfinity Infinity = False"
| "num_ge MinusInfinity MinusInfinity = True"
| "num_ge NaN b = False"
| "num_ge (Num a) NaN = False"
| "num_ge Infinity NaN = False"
| "num_ge MinusInfinity NaN = False"

text \<open>A value that may be \<^verbatim>\<open>undefined\<close> (here \<open>None\<close>), used as a number.\<close>

definition ToNumber :: "number option \<Rightarrow> number" where
  "ToNumber v = (case v of None \<Rightarrow> NaN | Some n \<Rightarrow> n)"

text \<open>
  Decimal rendering of an integer, as string concatenation \<^verbatim>\<open>i + ":" + j\<close> and
  \<^verbatim>\<open>"weakmap" + n\<close> perform it. Integers below \<open>10^21\<close> are printed in full, as
  here; larger doubles are printed with an exponent. The strings are only used as keys
  and compared, and in both forms different doubles are printed differently.
\<close>

definition digit_char :: "nat \<Rightarrow> char" where
  "digit_char d = char_of (48 + d)"

fun string_of_nat :: "nat \<Rightarrow> string" where
  "string_of_nat n =
     (if n < 10 then [digit_char n]
      else string_of_nat (n div 10) @ [digit_char (n mod 10)])"

declare string_of_nat.simps [simp del]

definition string_of_int :: "int \<Rightarrow> string" where
  "string_of_int k =
     (if k < 0 then CHR ''-'' # string_of_nat (nat (- k)) else string_of_nat (nat k))"

section \<open>Cells, the object store and the maze\<close>

text \<open>
  A \<^verbatim>\<open>MazeUnit\<close> is a JavaScript object: it is held by reference in the maze, in the
  sets and in the returned path. The declared fields \<^verbatim>\<open>x y w h i j id isBlock\<close> are
  the fields \<open>ux uy uw uh ui uj uid isBlock\<close>; \<open>props\<close> holds the properties that are
  attached to the object at run time (\<^verbatim>\<open>obj[key] = value\<close> in \<^verbatim>\<open>MyWeakMap.set\<close>).
  The store maps every reference to the current contents of its object. The numeric
  fields hold whole numbers (of pixels, of cells): a field is an integer, and stands for
  the double of that value.
\<close>

type_synonym ref = nat

record MazeUnit =
  ux :: int
  uy :: int
  uw :: int
  uh :: int
  ui :: int
  uj :: int
  uid :: string
  isBlock :: bool
  props :: "string \<rightharpoonup> number"

type_synonym store = "ref \<Rightarrow> MazeUnit"

type_synonym Maze = "ref list list"

text \<open>
  \<^verbatim>\<open>generateMaze\<close>: the object created for column \<open>i\<close> and row \<open>j\<close>. The outcome of
  \<^verbatim>\<open>Math.random() < block\<close> is the parameter \<open>b\<close>.
\<close>

definition new_unit :: "int \<Rightarrow> nat \<Rightarrow> nat \<Rightarrow> bool \<Rightarrow> MazeUnit" where
  "new_unit unitSize i j b =
     \<lparr>ux = int i * unitSize, uy = int j * unitSize, uw = unitSize, uh = unitSize,
      ui = int i, uj = int j,
      uid = string_of_int (int i) @ '':'' @ string_of_int (int j),
      isBlock = b, props = Map.empty\<rparr>"

text \<open>
  The objects and the arrays that the two loops of \<^verbatim>\<open>generateMaze\<close> build for
  \<open>xUnitCount\<close> columns of \<open>yUnitCount\<close> cells: the object of column \<open>i\<close> and row \<open>j\<close>
  is allocated at the reference \<open>i * yUnitCount + j\<close>, and \<open>draw i j\<close> is the outcome of
  its random draw.
\<close>

definition maze_objects ::
  "nat \<Rightarrow> int \<Rightarrow> (nat \<Rightarrow> nat \<Rightarrow> bool) \<Rightarrow> store" where
  "maze_objects yUnitCount unitSize draw =
     (\<lambda>r. new_unit unitSize (r div yUnitCount) (r mod yUnitCount)
             (draw (r div yUnitCount) (r mod yUnitCount)))"

definition maze_refs :: "nat \<Rightarrow> nat \<Rightarrow> Maze" where
  "maze_refs xUnitCount yUnitCount =
     map (\<lambda>i. map (\<lambda>j. i * yUnitCount + j) [0..<yUnitCount]) [0..<xUnitCount]"

text \<open>
  \<^verbatim>\<open>generateMaze\<close>: the store holding the new objects, and the maze. The counts are
  \<^verbatim>\<open>Math.floor(width / unitSize)\<close> and \<^verbatim>\<open>Math.floor(height / unitSize)\<close>; a loop
  whose bound is negative does not run. The case \<^verbatim>\<open>unitSize = 0\<close>, where the bounds are
  \<^verbatim>\<open>Infinity\<close> or \<^verbatim>\<open>NaN\<close>, is left out: here it yields the empty maze. The quotients
  and the products \<^verbatim>\<open>i * unitSize\<close> are those of the integers, which is what the
  doubles give for a width, a height and a unit size of magnitude below \<open>2^53\<close>.
\<close>

definition generateMaze ::
  "int \<Rightarrow> int \<Rightarrow> int \<Rightarrow> (nat \<Rightarrow> nat \<Rightarrow> bool) \<Rightarrow> store \<times> Maze" where
  "generateMaze width height unitSize draw =
     (let xUnitCount = nat (width div unitSize);
          yUnitCount = nat (height div unitSize)
      in (maze_objects yUnitCount unitSize draw, maze_refs xUnitCount yUnitCount))"

text \<open>
  \<^verbatim>\<open>getMazeUnit\<close>: \<^verbatim>\<open>maze[ix]\<close> and \<^verbatim>\<open>row[iy]\<close> are \<^verbatim>\<open>undefined\<close> outside the
  arrays, also at index \<open>-1\<close>.
\<close>

definition getMazeUnit :: "Maze \<Rightarrow> int \<Rightarrow> int \<Rightarrow> ref option" where
  "getMazeUnit maze ix iy =
     (if 0 \<le> ix \<and> ix < int (length maze) then
        (let row = maze ! nat ix in
         if 0 \<le> iy \<and> iy < int (length row) then Some (row ! nat iy) else None)
      else None)"

text \<open>The four candidate positions, looked up, with absent and blocked cells filtered out.\<close>

definition neighbors :: "store \<Rightarrow> Maze \<Rightarrow> int \<Rightarrow> int \<Rightarrow> ref list" where
  "neighbors h maze i j =
     filter (\<lambda>u. \<not> isBlock (h u))
       (List.map_filter (\<lambda>p. getMazeUnit maze (fst p) (snd p))
          [(i - 1, j), (i, j - 1), (i, j + 1), (i + 1, j)])"

text \<open>
  \<^verbatim>\<open>cost\<close>: \<^verbatim>\<open>Math.abs(a.x - b.x) + Math.abs(a.y - b.y)\<close>, the distance between the
  pixel positions of two cells, computed on doubles.
\<close>

definition cost :: "MazeUnit \<Rightarrow> MazeUnit \<Rightarrow> number" where
  "cost a b =
     num_add (num_abs (num_sub (Num (ux a)) (Num (ux b))))
             (num_abs (num_sub (Num (uy a)) (Num (uy b))))"

section \<open>The search with \<^verbatim>\<open>MySet\<close> and \<^verbatim>\<open>MyWeakMap\<close>\<close>

subsection \<open>\<^verbatim>\<open>MyWeakMap\<close>\<close>

text \<open>
  A \<^verbatim>\<open>MyWeakMap\<close> is its property name \<^verbatim>\<open>"weakmap" + instanceCount++\<close>; the static
  counter is threaded through. Its entries live on the keys themselves. The counter is a
  natural number: it counts the instances made so far, and the increment of a double
  is exact up to \<open>2^53\<close> instances.
\<close>

definition MyWeakMap_new :: "nat \<Rightarrow> string \<times> nat" where
  "MyWeakMap_new instanceCount =
     (''weakmap'' @ string_of_nat instanceCount, instanceCount + 1)"

definition MyWeakMap_set :: "string \<Rightarrow> ref \<Rightarrow> number \<Rightarrow> store \<Rightarrow> store" where
  "MyWeakMap_set wid obj v h = h(obj := (h obj)\<lparr>props := (props (h obj))(wid \<mapsto> v)\<rparr>)"

definition MyWeakMap_get :: "string \<Rightarrow> store \<Rightarrow> ref \<Rightarrow> number option" where
  "MyWeakMap_get wid h obj = props (h obj) wid"

definition MyWeakMap_has :: "string \<Rightarrow> store \<Rightarrow> ref \<Rightarrow> bool" where
  "MyWeakMap_has wid h obj = (MyWeakMap_get wid h obj \<noteq> None)"

definition mapGet :: "string \<Rightarrow> store \<Rightarrow> ref \<Rightarrow> number" where
  "mapGet wid h obj =
     (if MyWeakMap_has wid h obj then ToNumber (MyWeakMap_get wid h obj) else Infinity)"

subsection \<open>\<^verbatim>\<open>MySet\<close>\<close>

text \<open>
  The \<^verbatim>\<open>record\<close> object of a \<^verbatim>\<open>MySet\<close> is an association list in insertion order,
  which is the order \<^verbatim>\<open>Object.keys\<close> enumerates keys that are not array indices
  (an id \<^verbatim>\<open>i:j\<close> never is one, nor does it name a property that an empty object
  inherits); \<^verbatim>\<open>size\<close> is the separate counter of the class. The function \<^verbatim>\<open>getId\<close>
  given to the constructor reads the id of an object in the store.
\<close>

record MySet =
  set_record :: "(string \<times> ref) list"
  set_size :: int

definition MySet_new :: "(ref \<Rightarrow> string) \<Rightarrow> ref list \<Rightarrow> MySet" where
  "MySet_new getId arr =
     (let rec = fold (\<lambda>a rec. AList.update (getId a) a rec) arr []
      in \<lparr>set_record = rec, set_size = int (length (map fst rec))\<rparr>)"

definition MySet_get :: "(ref \<Rightarrow> string) \<Rightarrow> MySet \<Rightarrow> ref \<Rightarrow> ref option" where
  "MySet_get getId s item = map_of (set_record s) (getId item)"

definition MySet_has :: "(ref \<Rightarrow> string) \<Rightarrow> MySet \<Rightarrow> ref \<Rightarrow> bool" where
  "MySet_has getId s item = (MySet_get getId s item \<noteq> None)"

definition MySet_add :: "(ref \<Rightarrow> string) \<Rightarrow> MySet \<Rightarrow> ref \<Rightarrow> MySet" where
  "MySet_add getId s item =
     \<lparr>set_record = AList.update (getId item) item (set_record s),
      set_size = (if \<not> MySet_has getId s item then set_size s + 1 else set_size s)\<rparr>"

definition MySet_delete :: "(ref \<Rightarrow> string) \<Rightarrow> MySet \<Rightarrow> ref \<Rightarrow> MySet" where
  "MySet_delete getId s item =
     \<lparr>set_record = AList.delete (getId item) (set_record s),
      set_size = (if MySet_has getId s item then set_size s - 1 else set_size s)\<rparr>"

definition MySet_values :: "MySet \<Rightarrow> ref list" where
  "MySet_values s = map snd (set_record s)"

subsection \<open>\<^verbatim>\<open>buildPath\<close>\<close>

text \<open>
  The loop \<^verbatim>\<open>while (unit)\<close>: \<open>unit\<close> is a reference or \<^verbatim>\<open>undefined\<close>. The object
  \<^verbatim>\<open>from\<close> is a map from ids to references (no id \<^verbatim>\<open>i:j\<close> names a property that
  an empty object inherits).
\<close>

partial_function (option) buildPath_loop ::
  "store \<Rightarrow> (string \<rightharpoonup> ref) \<Rightarrow> ref option \<Rightarrow> ref list \<Rightarrow> ref list option" where
  "buildPath_loop h frm unit path =
     (case unit of
        None \<Rightarrow> Some path
      | Some u \<Rightarrow>
          (let parent = frm (uid (h u))
           in buildPath_loop h frm parent
                (case parent of Some p \<Rightarrow> path @ [p] | None \<Rightarrow> path)))"

declare buildPath_loop.simps [code]

definition buildPath :: "store \<Rightarrow> (string \<rightharpoonup> ref) \<Rightarrow> ref \<Rightarrow> ref list option" where
  "buildPath h frm unit = buildPath_loop h frm (Some unit) [unit]"

subsection \<open>\<^verbatim>\<open>getPath\<close>\<close>

record search =
  cells :: store
  openSet :: MySet
  closedSet :: MySet
  cameFrom :: "string \<rightharpoonup> ref"

text \<open>The scan for the member of the open set with the least \<^verbatim>\<open>fScore\<close>.\<close>

definition pick_current :: "(ref \<Rightarrow> number option) \<Rightarrow> ref list \<Rightarrow> ref \<Rightarrow> ref" where
  "pick_current fScore_get openUnits first =
     fold (\<lambda>u current.
             if num_lt (ToNumber (fScore_get u)) (ToNumber (fScore_get current))
             then u else current)
          openUnits first"

text \<open>The body of \<^verbatim>\<open>neighbors.forEach\<close> for one neighbor.\<close>

definition visit_neighbor ::
  "string \<Rightarrow> string \<Rightarrow> ref \<Rightarrow> ref \<Rightarrow> ref \<Rightarrow> search \<Rightarrow> search" where
  "visit_neighbor gScore fScore targetPoint current neighbor s =
     (if MySet_has (\<lambda>u. uid (cells s u)) (closedSet s) neighbor then s
      else
        (let s1 = s\<lparr>openSet := MySet_add (\<lambda>u. uid (cells s u)) (openSet s) neighbor\<rparr>;
             tentasiveGScore =
               num_add (mapGet gScore (cells s1) current)
                       (cost (cells s1 current) (cells s1 neighbor))
         in if num_ge tentasiveGScore (mapGet gScore (cells s1) neighbor) then s1
            else
              (let s2 = s1\<lparr>cameFrom := (cameFrom s1)(uid (cells s1 neighbor) \<mapsto> current)\<rparr>;
                   s3 = s2\<lparr>cells := MyWeakMap_set gScore neighbor tentasiveGScore (cells s2)\<rparr>
               in s3\<lparr>cells :=
                        MyWeakMap_set fScore neighbor
                          (num_add (ToNumber (MyWeakMap_get gScore (cells s3) neighbor))
                                   (cost (cells s3 neighbor) (cells s3 targetPoint)))
                          (cells s3)\<rparr>)))"

text \<open>
  The loop \<^verbatim>\<open>while (openSet.size !== 0)\<close>. When the counter is not zero and the record
  has no key, \<^verbatim>\<open>current\<close> is \<^verbatim>\<open>undefined\<close> and \<^verbatim>\<open>current.i\<close> throws.
\<close>

partial_function (option) getPath_loop ::
  "Maze \<Rightarrow> ref \<Rightarrow> string \<Rightarrow> string \<Rightarrow> search \<Rightarrow> (search \<times> (error + ref list)) option" where
  "getPath_loop maze targetPoint gScore fScore s =
     (if set_size (openSet s) = 0 then Some (s, Inr [])
      else
        (case MySet_values (openSet s) of
           [] \<Rightarrow> Some (s, Inl TypeError)
         | first # rest \<Rightarrow>
             (let current = pick_current (MyWeakMap_get fScore (cells s)) (first # rest) first
              in if ui (cells s current) = ui (cells s targetPoint)
                    \<and> uj (cells s current) = uj (cells s targetPoint)
                 then map_option (\<lambda>path. (s, Inr path))
                        (buildPath (cells s) (cameFrom s) current)
                 else
                   (let s1 = s\<lparr>openSet := MySet_delete (\<lambda>u. uid (cells s u)) (openSet s) current\<rparr>;
                        s2 = s1\<lparr>closedSet := MySet_add (\<lambda>u. uid (cells s1 u)) (closedSet s1) current\<rparr>
                    in getPath_loop maze targetPoint gScore fScore
                         (fold (visit_neighbor gScore fScore targetPoint current)
                            (neighbors (cells s2) maze (ui (cells s2 current)) (uj (cells s2 current)))
                            s2)))))"

declare getPath_loop.simps [code]

text \<open>
  The same loop, given up after a number of rounds, a round being one test of the loop
  condition with the execution of the body that follows it: the result is \<open>None\<close> when
  the loop has not returned within \<open>rounds\<close> rounds.
\<close>

fun getPath_rounds ::
  "nat \<Rightarrow> Maze \<Rightarrow> ref \<Rightarrow> string \<Rightarrow> string \<Rightarrow> search \<Rightarrow> (search \<times> (error + ref list)) option" where
  "getPath_rounds 0 maze targetPoint gScore fScore s = None"
| "getPath_rounds (Suc rounds) maze targetPoint gScore fScore s =
     (if set_size (openSet s) = 0 then Some (s, Inr [])
      else
        (case MySet_values (openSet s) of
           [] \<Rightarrow> Some (s, Inl TypeError)
         | first # rest \<Rightarrow>
             (let current = pick_current (MyWeakMap_get fScore (cells s)) (first # rest) first
              in if ui (cells s current) = ui (cells s targetPoint)
                    \<and> uj (cells s current) = uj (cells s targetPoint)
                 then map_option (\<lambda>path. (s, Inr path))
                        (buildPath (cells s) (cameFrom s) current)
                 else
                   (let s1 = s\<lparr>openSet := MySet_delete (\<lambda>u. uid (cells s u)) (openSet s) current\<rparr>;
                        s2 = s1\<lparr>closedSet := MySet_add (\<lambda>u. uid (cells s1 u)) (closedSet s1) current\<rparr>
                    in getPath_rounds rounds maze targetPoint gScore fScore
                         (fold (visit_neighbor gScore fScore targetPoint current)
                            (neighbors (cells s2) maze (ui (cells s2 current)) (uj (cells s2 current)))
                            s2)))))"

text \<open>
  \<^verbatim>\<open>getPath\<close> takes the store and the static counter of \<^verbatim>\<open>MyWeakMap\<close> and returns
  them with its result.
\<close>

definition getPath ::
  "Maze \<Rightarrow> ref \<Rightarrow> ref \<Rightarrow> store \<times> nat \<Rightarrow> ((error + ref list) \<times> store \<times> nat) option" where
  "getPath maze startPoint targetPoint st =
     (let h = fst st;
          closedSet0 = MySet_new (\<lambda>u. uid (h u)) [];
          openSet0 = MySet_new (\<lambda>u. uid (h u)) [startPoint];
          gScore = fst (MyWeakMap_new (snd st));
          fScore = fst (MyWeakMap_new (snd (MyWeakMap_new (snd st))));
          instanceCount = snd (MyWeakMap_new (snd (MyWeakMap_new (snd st))));
          h1 = MyWeakMap_set gScore startPoint (Num 0) h;
          h2 = MyWeakMap_set fScore startPoint (cost (h1 startPoint) (h1 targetPoint)) h1
      in map_option (\<lambda>r. (snd r, cells (fst r), instanceCount))
           (getPath_loop maze targetPoint gScore fScore
              \<lparr>cells = h2, openSet = openSet0, closedSet = closedSet0, cameFrom = Map.empty\<rparr>))"

text \<open>\<^verbatim>\<open>getPath\<close> with its loop given up after \<open>rounds\<close> rounds.\<close>

definition getPath_within ::
  "nat \<Rightarrow> Maze \<Rightarrow> ref \<Rightarrow> ref \<Rightarrow> store \<times> nat \<Rightarrow> ((error + ref list) \<times> store \<times> nat) option" where
  "getPath_within rounds maze startPoint targetPoint st =
     (let h = fst st;
          closedSet0 = MySet_new (\<lambda>u. uid (h u)) [];
          openSet0 = MySet_new (\<lambda>u. uid (h u)) [startPoint];
          gScore = fst (MyWeakMap_new (snd st));
          fScore = fst (MyWeakMap_new (snd (MyWeakMap_new (snd st))));
          instanceCount = snd (MyWeakMap_new (snd (MyWeakMap_new (snd st))));
          h1 = MyWeakMap_set gScore startPoint (Num 0) h;
          h2 = MyWeakMap_set fScore startPoint (cost (h1 startPoint) (h1 targetPoint)) h1
      in map_option (\<lambda>r. (snd r, cells (fst r), instanceCount))
           (getPath_rounds rounds maze targetPoint gScore fScore
              \<lparr>cells = h2, openSet = openSet0, closedSet = closedSet0, cameFrom = Map.empty\<rparr>))"

section \<open>The search with the native \<^verbatim>\<open>Set\<close> and \<^verbatim>\<open>WeakMap\<close>\<close>

text \<open>
  The other source variant of \<^verbatim>\<open>getPath\<close>. A \<^verbatim>\<open>Set\<close> of objects is the list of
  its members in insertion order, without repetition; a \<^verbatim>\<open>WeakMap\<close> is a map from
  references; \<^verbatim>\<open>from\<close> is used as a plain object, with the keys of \<^verbatim>\<open>getId\<close>.
  The store is only read. The constants carry the suffix \<open>native\<close>; \<^verbatim>\<open>cost\<close> has the
  same text in both variants and is shared.
\<close>

definition Set_add :: "ref list \<Rightarrow> ref \<Rightarrow> ref list" where
  "Set_add s item = (if item \<in> set s then s else s @ [item])"

definition Set_delete :: "ref list \<Rightarrow> ref \<Rightarrow> ref list" where
  "Set_delete s item = removeAll item s"

definition mapGet_native :: "(ref \<rightharpoonup> number) \<Rightarrow> ref \<Rightarrow> number" where
  "mapGet_native m obj = (if m obj \<noteq> None then ToNumber (m obj) else Infinity)"

definition getId :: "MazeUnit \<Rightarrow> string" where
  "getId unit = string_of_int (ux unit) @ '':'' @ string_of_int (uy unit)"

partial_function (option) buildPath_native_loop ::
  "store \<Rightarrow> (string \<rightharpoonup> ref) \<Rightarrow> ref option \<Rightarrow> ref list \<Rightarrow> ref list option" where
  "buildPath_native_loop h frm unit path =
     (case unit of
        None \<Rightarrow> Some path
      | Some u \<Rightarrow>
          (let parent = frm (getId (h u))
           in buildPath_native_loop h frm parent
                (case parent of Some p \<Rightarrow> path @ [p] | None \<Rightarrow> path)))"

declare buildPath_native_loop.simps [code]

definition buildPath_native :: "store \<Rightarrow> (string \<rightharpoonup> ref) \<Rightarrow> ref \<Rightarrow> ref list option" where
  "buildPath_native h frm unit = buildPath_native_loop h frm (Some unit) [unit]"

record search_native =
  openSet_native :: "ref list"
  closedSet_native :: "ref list"
  cameFrom_native :: "string \<rightharpoonup> ref"
  gScore_native :: "ref \<rightharpoonup> number"
  fScore_native :: "ref \<rightharpoonup> number"

definition visit_neighbor_native ::
  "store \<Rightarrow> ref \<Rightarrow> ref \<Rightarrow> ref \<Rightarrow> search_native \<Rightarrow> search_native" where
  "visit_neighbor_native h targetPoint current neighbor s =
     (if neighbor \<in> set (closedSet_native s) then s
      else
        (let s1 = s\<lparr>openSet_native := Set_add (openSet_native s) neighbor\<rparr>;
             tentasiveGScore =
               num_add (mapGet_native (gScore_native s1) current)
                       (cost (h current) (h neighbor))
         in if num_ge tentasiveGScore (mapGet_native (gScore_native s1) neighbor) then s1
            else
              (let s2 = s1\<lparr>cameFrom_native := (cameFrom_native s1)(getId (h neighbor) \<mapsto> current)\<rparr>;
                   s3 = s2\<lparr>gScore_native := (gScore_native s2)(neighbor \<mapsto> tentasiveGScore)\<rparr>
               in s3\<lparr>fScore_native :=
                        (fScore_native s3)(neighbor \<mapsto>
                           num_add (ToNumber (gScore_native s3 neighbor))
                                   (cost (h neighbor) (h targetPoint)))\<rparr>)))"

text \<open>
  The size of a \<^verbatim>\<open>Set\<close> is the number of its members, so \<^verbatim>\<open>openSet.size !== 0\<close>
  holds exactly when there is a first member.
\<close>

partial_function (option) getPath_native_loop ::
  "store \<Rightarrow> Maze \<Rightarrow> ref \<Rightarrow> search_native \<Rightarrow> ref list option" where
  "getPath_native_loop h maze targetPoint s =
     (case openSet_native s of
        [] \<Rightarrow> Some []
      | first # rest \<Rightarrow>
          (let current = pick_current (fScore_native s) (first # rest) first
           in if ui (h current) = ui (h targetPoint) \<and> uj (h current) = uj (h targetPoint)
              then buildPath_native h (cameFrom_native s) current
              else
                (let s1 = s\<lparr>openSet_native := Set_delete (openSet_native s) current\<rparr>;
                     s2 = s1\<lparr>closedSet_native := Set_add (closedSet_native s1) current\<rparr>
                 in getPath_native_loop h maze targetPoint
                      (fold (visit_neighbor_native h targetPoint current)
                         (neighbors h maze (ui (h current)) (uj (h current)))
                         s2))))"

declare getPath_native_loop.simps [code]

definition getPath_native :: "store \<Rightarrow> Maze \<Rightarrow> ref \<Rightarrow> ref \<Rightarrow> ref list option" where
  "getPath_native h maze startPoint targetPoint =
     getPath_native_loop h maze targetPoint
       \<lparr>openSet_native = [startPoint], closedSet_native = [],
        cameFrom_native = Map.empty,
        gScore_native = [startPoint \<mapsto> Num 0],
        fScore_native = [startPoint \<mapsto> cost (h startPoint) (h targetPoint)]\<rparr>"

section \<open>Well-formed mazes, paths and results\<close>

definition maze_cells :: "Maze \<Rightarrow> ref set" where
  "maze_cells maze = set (concat maze)"

text \<open>
  The data model of the maze: the object at \<^verbatim>\<open>maze[a][b]\<close> carries the column \<open>a\<close>
  and the row \<open>b\<close>, the id and the pixel position derived from them, for a positive
  \<open>unitSize\<close>. This is what \<^verbatim>\<open>generateMaze\<close> builds.
\<close>

definition unit_at :: "int \<Rightarrow> MazeUnit \<Rightarrow> nat \<Rightarrow> nat \<Rightarrow> bool" where
  "unit_at unitSize c a b \<longleftrightarrow>
     ui c = int a \<and> uj c = int b \<and>
     ux c = int a * unitSize \<and> uy c = int b * unitSize \<and>
     uw c = unitSize \<and> uh c = unitSize \<and>
     uid c = string_of_int (int a) @ '':'' @ string_of_int (int b)"

definition maze_wf :: "int \<Rightarrow> store \<Rightarrow> Maze \<Rightarrow> bool" where
  "maze_wf unitSize h maze \<longleftrightarrow>
     0 < unitSize \<and>
     (\<forall>a < length maze. \<forall>b < length (maze ! a). unit_at unitSize (h (maze ! a ! b)) a b)"

text \<open>
  The integers of magnitude up to \<open>2^53\<close> are doubles, and a sum or a difference of
  doubles that stays in this range is exact. A \<^verbatim>\<open>gScore\<close> is at most the unit size
  times the number of cells, and the distance in pixels between two cells is less than
  the unit size times the number of columns plus the length of a column, which is at
  most the number of cells. So in a maze of the following size no score is ever rounded.
\<close>

definition exact_range :: "int \<Rightarrow> Maze \<Rightarrow> bool" where
  "exact_range unitSize maze \<longleftrightarrow>
     unitSize * (2 * int (card (maze_cells maze)) + int (length maze)) \<le> 2 ^ 53"

text \<open>All rows of the maze have the same length.\<close>

definition rectangular :: "Maze \<Rightarrow> bool" where
  "rectangular maze \<longleftrightarrow> list_all (\<lambda>row. length row = length (hd maze)) maze"

text \<open>
  The hidden properties on the cells come from earlier instances of \<^verbatim>\<open>MyWeakMap\<close>
  only: each is named \<^verbatim>\<open>weakmap\<close> followed by a number below the static counter.
  A new maze has none, and \<^verbatim>\<open>MyWeakMap.set\<close> is all that adds any.
\<close>

definition props_ok :: "store \<Rightarrow> Maze \<Rightarrow> nat \<Rightarrow> bool" where
  "props_ok h maze instanceCount \<longleftrightarrow>
     (\<forall>r \<in> maze_cells maze. \<forall>k. props (h r) k \<noteq> None \<longrightarrow>
        (\<exists>n < instanceCount. k = ''weakmap'' @ string_of_nat n))"

text \<open>Two objects agree on all declared fields of a \<^verbatim>\<open>MazeUnit\<close>.\<close>

definition same_fields :: "MazeUnit \<Rightarrow> MazeUnit \<Rightarrow> bool" where
  "same_fields c d \<longleftrightarrow>
     ux c = ux d \<and> uy c = uy d \<and> uw c = uw d \<and> uh c = uh d \<and>
     ui c = ui d \<and> uj c = uj d \<and> uid c = uid d \<and> isBlock c = isBlock d"

text \<open>Two cells differ by exactly one unit in exactly one axis.\<close>

definition adjacent4 :: "MazeUnit \<Rightarrow> MazeUnit \<Rightarrow> bool" where
  "adjacent4 c d \<longleftrightarrow>
     (\<bar>ui c - ui d\<bar> = 1 \<and> uj c = uj d) \<or> (ui c = ui d \<and> \<bar>uj c - uj d\<bar> = 1)"

text \<open>
  A path from \<open>a\<close> to \<open>b\<close>: cells of the maze, each 4-adjacent to the one before,
  every cell that is stepped on unblocked. The first cell is where the path stands
  at the start; nothing is asked of its flag.
\<close>

definition maze_path :: "store \<Rightarrow> Maze \<Rightarrow> ref \<Rightarrow> ref \<Rightarrow> ref list \<Rightarrow> bool" where
  "maze_path h maze a b p \<longleftrightarrow>
     p \<noteq> [] \<and> hd p = a \<and> last p = b \<and>
     list_all (\<lambda>c. c \<in> maze_cells maze) p \<and>
     successively (\<lambda>c d. adjacent4 (h c) (h d)) p \<and>
     list_all (\<lambda>c. \<not> isBlock (h c)) (tl p)"

text \<open>
  The three parts of what a call of \<^verbatim>\<open>getPath\<close> leaves: the value it returns, the
  store and the static counter.
\<close>

definition returned :: "('a \<times> store \<times> nat) option \<Rightarrow> 'a option" where
  "returned r = map_option fst r"

definition store_after :: "('a \<times> store \<times> nat) option \<Rightarrow> store option" where
  "store_after r = map_option (\<lambda>x. fst (snd x)) r"

definition counter_after :: "('a \<times> store \<times> nat) option \<Rightarrow> nat option" where
  "counter_after r = map_option (\<lambda>x. snd (snd x)) r"

text \<open>The property \<open>k\<close> of the object \<open>r\<close> after a call.\<close>

definition prop_after :: "string \<Rightarrow> ref \<Rightarrow> ('a \<times> store \<times> nat) option \<Rightarrow> number option option" where
  "prop_after k r res = map_option (\<lambda>h. props (h r) k) (store_after res)"

text \<open>The number held by an entry of a score map (0 when there is none).\<close>

definition score :: "number option \<Rightarrow> int" where
  "score v = (case v of Some (Num n) \<Rightarrow> n | _ \<Rightarrow> 0)"

text \<open>
  \<open>c\<close> is the first member of the list \<open>ys\<close> at which \<open>v\<close> is least: no member has a
  smaller value, and every member before it has a larger one.
\<close>

definition first_min :: "(ref \<Rightarrow> int) \<Rightarrow> ref list \<Rightarrow> ref \<Rightarrow> bool" where
  "first_min v ys c \<longleftrightarrow>
     (\<exists>i < length ys. ys ! i = c \<and> (\<forall>j < length ys. v c \<le> v (ys ! j))
        \<and> (\<forall>j < i. v c < v (ys ! j)))"

section \<open>Example mazes\<close>

text \<open>
  Scenario A: a maze of 30 by 30 pixels with cells of size 10, that is 3 by 3 cells, none
  blocked. The cell of column \<open>i\<close> and row \<open>j\<close> is the reference \<open>3 * i + j\<close>.
\<close>

definition no_blocks :: "nat \<Rightarrow> nat \<Rightarrow> bool" where
  "no_blocks i j = False"

definition scenarioA_store :: store where
  "scenarioA_store = fst (generateMaze 30 30 10 no_blocks)"

definition scenarioA_maze :: Maze where
  "scenarioA_maze = snd (generateMaze 30 30 10 no_blocks)"

text \<open>Scenario B: 3 columns of one cell, the middle one blocked.\<close>

definition scenarioB_blocks :: "nat \<Rightarrow> nat \<Rightarrow> bool" where
  "scenarioB_blocks i j = (i = 1)"

definition scenarioB_store :: store where
  "scenarioB_store = fst (generateMaze 30 10 10 scenarioB_blocks)"

definition scenarioB_maze :: Maze where
  "scenarioB_maze = snd (generateMaze 30 10 10 scenarioB_blocks)"

text \<open>Scenario C: 3 by 3 cells, the middle row blocked but for the cell (1,1).\<close>

definition scenarioC_blocks :: "nat \<Rightarrow> nat \<Rightarrow> bool" where
  "scenarioC_blocks i j = (j = 1 \<and> i \<noteq> 1)"

definition scenarioC_store :: store where
  "scenarioC_store = fst (generateMaze 30 30 10 scenarioC_blocks)"

definition scenarioC_maze :: Maze where
  "scenarioC_maze = snd (generateMaze 30 30 10 scenarioC_blocks)"

text \<open>A maze of 2 by 2 cells in which every cell is blocked.\<close>

definition all_blocks :: "nat \<Rightarrow> nat \<Rightarrow> bool" where
  "all_blocks i j = True"

definition blocked_store :: store where
  "blocked_store = fst (generateMaze 20 20 10 all_blocks)"

definition blocked_maze :: Maze where
  "blocked_maze = snd (generateMaze 20 20 10 all_blocks)"

text \<open>A table of scores with ties: 30 for cell 5 and 40 for every other cell.\<close>

definition tie_scores :: "ref \<Rightarrow> number option" where
  "tie_scores r = Some (Num (if r = 5 then 30 else 40))"

section \<open>Notions used in the proofs\<close>

subsection \<open>The graph of the maze\<close>

text \<open>
  One move of the search: from a cell to one of the neighbors it computes. A walk is
  a non-empty list of cells linked by moves; on a well-formed maze the walks from a cell
  of the maze are the paths.
\<close>

definition step :: "store \<Rightarrow> Maze \<Rightarrow> ref \<Rightarrow> ref \<Rightarrow> bool" where
  "step h maze a b \<longleftrightarrow> b \<in> set (neighbors h maze (ui (h a)) (uj (h a)))"

definition walk :: "store \<Rightarrow> Maze \<Rightarrow> ref \<Rightarrow> ref \<Rightarrow> ref list \<Rightarrow> bool" where
  "walk h maze a b q \<longleftrightarrow> q \<noteq> [] \<and> hd q = a \<and> last q = b \<and> successively (step h maze) q"

text \<open>The heuristic: the cost between a cell and the target.\<close>

definition heur :: "store \<Rightarrow> ref \<Rightarrow> ref \<Rightarrow> int" where
  "heur h t r = \<bar>ux (h r) - ux (h t)\<bar> + \<bar>uy (h r) - uy (h t)\<bar>"

subsection \<open>Invariants of the search\<close>

text \<open>
  The invariants are stated on the variant with the native \<^verbatim>\<open>Set\<close> and
  \<^verbatim>\<open>WeakMap\<close>, whose bookkeeping is apart from the store. A cell is visited when it
  is in the open or in the closed set. The first group of invariants holds whatever
  the scores are, also when they are rounded or infinite.
\<close>

definition visited :: "search_native \<Rightarrow> ref set" where
  "visited s = set (openSet_native s) \<union> set (closedSet_native s)"

text \<open>The two sets hold cells of the maze, have no repetition and are disjoint.\<close>

definition inv_struct :: "Maze \<Rightarrow> search_native \<Rightarrow> bool" where
  "inv_struct maze s \<longleftrightarrow>
     distinct (openSet_native s) \<and> distinct (closedSet_native s) \<and>
     set (openSet_native s) \<subseteq> maze_cells maze \<and>
     set (closedSet_native s) \<subseteq> maze_cells maze \<and>
     set (openSet_native s) \<inter> set (closedSet_native s) = {}"

text \<open>
  The start is the first cell to be closed; it keeps the scores it was given and never
  gets a link.
\<close>

definition inv_start :: "store \<Rightarrow> ref \<Rightarrow> ref \<Rightarrow> search_native \<Rightarrow> bool" where
  "inv_start h start t s \<longleftrightarrow>
     (start \<in> set (closedSet_native s) \<or>
        (openSet_native s = [start] \<and> closedSet_native s = [])) \<and>
     cameFrom_native s (getId (h start)) = None \<and>
     gScore_native s start = Some (Num 0) \<and>
     fScore_native s start = Some (cost (h start) (h t))"

text \<open>Every visited cell is reached by a walk from the start.\<close>

definition inv_reach :: "store \<Rightarrow> Maze \<Rightarrow> ref \<Rightarrow> search_native \<Rightarrow> bool" where
  "inv_reach h maze start s \<longleftrightarrow> (\<forall>r \<in> visited s. \<exists>q. walk h maze start r q)"

text \<open>
  Every move out of a closed cell leads to a visited cell. While the neighbors of the
  cell \<open>cur\<close> are being visited, this holds for the moves out of \<open>cur\<close> into the set \<open>D\<close>
  of neighbors done so far; between two rounds of the loop \<open>D\<close> is the universe.
\<close>

definition inv_frontier :: "store \<Rightarrow> Maze \<Rightarrow> ref \<Rightarrow> ref set \<Rightarrow> search_native \<Rightarrow> bool" where
  "inv_frontier h maze cur D s \<longleftrightarrow>
     (\<forall>p \<in> set (closedSet_native s). \<forall>r. step h maze p r \<longrightarrow>
        (p = cur \<and> r \<notin> D) \<or> r \<in> visited s)"

text \<open>
  A link of \<^verbatim>\<open>from\<close> leads from a visited cell, one move back, to a closed cell, and
  a cell that has a link has both scores.
\<close>

definition inv_link :: "store \<Rightarrow> Maze \<Rightarrow> search_native \<Rightarrow> bool" where
  "inv_link h maze s \<longleftrightarrow>
     (\<forall>r \<in> maze_cells maze. \<forall>p. cameFrom_native s (getId (h r)) = Some p \<longrightarrow>
        p \<in> set (closedSet_native s) \<and> r \<in> visited s \<and> step h maze p r \<and>
        gScore_native s r \<noteq> None \<and> fScore_native s r \<noteq> None)"

text \<open>
  The list \<open>q\<close> is the chain of links that starts at \<open>r\<close>: what \<^verbatim>\<open>buildPath\<close> appends
  after \<open>r\<close>. The chain of a closed cell runs through closed cells, which no visit
  changes any more.
\<close>

fun links :: "store \<Rightarrow> (string \<rightharpoonup> ref) \<Rightarrow> ref \<Rightarrow> ref list \<Rightarrow> bool" where
  "links h frm r [] \<longleftrightarrow> frm (getId (h r)) = None"
| "links h frm r (p # q) \<longleftrightarrow> frm (getId (h r)) = Some p \<and> links h frm p q"

definition inv_chain :: "store \<Rightarrow> search_native \<Rightarrow> bool" where
  "inv_chain h s \<longleftrightarrow>
     (\<forall>r \<in> set (closedSet_native s).
        \<exists>q. links h (cameFrom_native s) r q \<and> set q \<subseteq> set (closedSet_native s))"

text \<open>
  The invariant of the search that holds whatever the scores are; the target is never
  closed.
\<close>

definition search_inv ::
  "store \<Rightarrow> Maze \<Rightarrow> ref \<Rightarrow> ref \<Rightarrow> ref \<Rightarrow> ref set \<Rightarrow> search_native \<Rightarrow> bool" where
  "search_inv h maze start t cur D s \<longleftrightarrow>
     inv_struct maze s \<and> inv_start h start t s \<and> inv_reach h maze start s \<and>
     inv_frontier h maze cur D s \<and> inv_link h maze s \<and> inv_chain h s \<and>
     t \<notin> set (closedSet_native s)"

text \<open>
  What the search returns from the state \<open>s\<close>: nothing when no walk leads to the target,
  and otherwise the target, which it has visited, followed by its chain of links.
\<close>

definition search_result ::
  "store \<Rightarrow> Maze \<Rightarrow> ref \<Rightarrow> ref \<Rightarrow> search_native \<Rightarrow> ref list \<Rightarrow> bool" where
  "search_result h maze start t s path \<longleftrightarrow>
     (path = [] \<and> (\<forall>q. \<not> walk h maze start t q)) \<or>
     (\<exists>q. path = t # q \<and> t \<in> visited s \<and> links h (cameFrom_native s) t q)"

text \<open>
  The remaining invariants are those of a search whose scores are exact: they hold in a
  maze of the size \<open>exact_range\<close>. Exactly the visited cells have a \<^verbatim>\<open>gScore\<close>,
  which is a non-negative integer, and their \<^verbatim>\<open>fScore\<close> is that number plus the
  heuristic.
\<close>

definition inv_scores :: "store \<Rightarrow> ref \<Rightarrow> search_native \<Rightarrow> bool" where
  "inv_scores h t s \<longleftrightarrow>
     (\<forall>r \<in> visited s. \<exists>n. 0 \<le> n \<and> gScore_native s r = Some (Num n)
         \<and> fScore_native s r = Some (Num (n + heur h t r))) \<and>
     (\<forall>r. r \<notin> visited s \<longrightarrow> gScore_native s r = None)"

text \<open>
  The links of \<^verbatim>\<open>from\<close>: the start has none and every other visited cell has one; a
  link leads to a closed cell, one move and one unit of cost back.
\<close>

definition inv_from :: "int \<Rightarrow> store \<Rightarrow> Maze \<Rightarrow> ref \<Rightarrow> search_native \<Rightarrow> bool" where
  "inv_from u h maze start s \<longleftrightarrow>
     cameFrom_native s (getId (h start)) = None \<and>
     start \<in> visited s \<and> gScore_native s start = Some (Num 0) \<and>
     (\<forall>r \<in> maze_cells maze. \<forall>p. cameFrom_native s (getId (h r)) = Some p \<longrightarrow>
        p \<in> set (closedSet_native s) \<and> r \<in> visited s \<and> step h maze p r \<and>
        score (gScore_native s r) = score (gScore_native s p) + u) \<and>
     (\<forall>r \<in> visited s. r \<noteq> start \<longrightarrow> cameFrom_native s (getId (h r)) \<noteq> None)"

text \<open>The score of a visited cell is the cost of some walk from the start.\<close>

definition inv_real :: "int \<Rightarrow> store \<Rightarrow> Maze \<Rightarrow> ref \<Rightarrow> search_native \<Rightarrow> bool" where
  "inv_real u h maze start s \<longleftrightarrow>
     (\<forall>r \<in> visited s. \<exists>q. walk h maze start r q \<and>
         score (gScore_native s r) = u * (int (length q) - 1))"

text \<open>The score of a closed cell is at most the cost of every walk from the start.\<close>

definition inv_opt :: "int \<Rightarrow> store \<Rightarrow> Maze \<Rightarrow> ref \<Rightarrow> search_native \<Rightarrow> bool" where
  "inv_opt u h maze start s \<longleftrightarrow>
     (\<forall>r \<in> set (closedSet_native s). \<forall>q. walk h maze start r q \<longrightarrow>
         score (gScore_native s r) \<le> u * (int (length q) - 1))"

text \<open>
  Every move out of a closed cell leads to a visited cell whose score is at most one
  unit more. While the neighbors of the cell \<open>cur\<close> are being visited, this holds for
  the moves out of \<open>cur\<close> into the set \<open>D\<close> of neighbors done so far; between two
  rounds of the loop \<open>D\<close> is the universe.
\<close>

definition inv_edge ::
  "int \<Rightarrow> store \<Rightarrow> Maze \<Rightarrow> ref \<Rightarrow> ref set \<Rightarrow> search_native \<Rightarrow> bool" where
  "inv_edge u h maze cur D s \<longleftrightarrow>
     (\<forall>p \<in> set (closedSet_native s). \<forall>r. step h maze p r \<longrightarrow>
        (p = cur \<and> r \<notin> D) \<or>
        (r \<in> visited s \<and> score (gScore_native s r) \<le> score (gScore_native s p) + u))"

text \<open>
  The score of an open cell is at most one unit for each closed cell, and that of a
  closed cell one unit less.
\<close>

definition inv_bound :: "int \<Rightarrow> search_native \<Rightarrow> bool" where
  "inv_bound u s \<longleftrightarrow>
     (\<forall>r \<in> set (openSet_native s).
        score (gScore_native s r) \<le> u * int (length (closedSet_native s))) \<and>
     (\<forall>p \<in> set (closedSet_native s).
        score (gScore_native s p) + u \<le> u * int (length (closedSet_native s)))"

definition astar_inv ::
  "int \<Rightarrow> store \<Rightarrow> Maze \<Rightarrow> ref \<Rightarrow> ref \<Rightarrow> ref \<Rightarrow> ref set \<Rightarrow> search_native \<Rightarrow> bool" where
  "astar_inv u h maze start t cur D s \<longleftrightarrow>
     inv_struct maze s \<and> inv_scores h t s \<and> inv_from u h maze start s \<and>
     inv_real u h maze start s \<and> inv_opt u h maze start s \<and>
     inv_edge u h maze cur D s \<and> inv_bound u s \<and> t \<notin> set (closedSet_native s)"

text \<open>
  The list \<open>q\<close> is what \<^verbatim>\<open>buildPath\<close> appends after \<open>r\<close>: the links from \<open>r\<close> back to
  the start.
\<close>

definition chain_ok ::
  "int \<Rightarrow> store \<Rightarrow> Maze \<Rightarrow> ref \<Rightarrow> search_native \<Rightarrow> ref \<Rightarrow> ref list \<Rightarrow> bool" where
  "chain_ok u h maze start s r q \<longleftrightarrow>
     (\<forall>acc. buildPath_native_loop h (cameFrom_native s) (Some r) acc = Some (acc @ q)) \<and>
     walk h maze start r (rev (r # q)) \<and>
     score (gScore_native s r) = u * int (length q)"

text \<open>What the search has to return: nothing when no walk exists, a shortest walk
  backwards otherwise.\<close>

definition shortest_result ::
  "store \<Rightarrow> Maze \<Rightarrow> ref \<Rightarrow> ref \<Rightarrow> ref list \<Rightarrow> bool" where
  "shortest_result h maze start t path \<longleftrightarrow>
     (path = [] \<and> (\<forall>q. \<not> walk h maze start t q)) \<or>
     (path \<noteq> [] \<and> walk h maze start t (rev path) \<and>
        (\<forall>q. walk h maze start t q \<longrightarrow> length path \<le> length q))"

text \<open>The state after one round of the loop that closes the cell \<open>c\<close>.\<close>

definition native_next :: "store \<Rightarrow> Maze \<Rightarrow> ref \<Rightarrow> search_native \<Rightarrow> ref \<Rightarrow> search_native" where
  "native_next h maze t s c =
     fold (visit_neighbor_native h t c) (neighbors h maze (ui (h c)) (uj (h c)))
       (s\<lparr>openSet_native := Set_delete (openSet_native s) c,
          closedSet_native := Set_add (closedSet_native s) c\<rparr>)"

subsection \<open>The simulation between the two variants\<close>

text \<open>The \<^verbatim>\<open>MySet\<close> that holds the members of a list under the keys \<open>k\<close>.\<close>

definition keyed :: "(ref \<Rightarrow> string) \<Rightarrow> ref list \<Rightarrow> MySet" where
  "keyed k xs = \<lparr>set_record = map (\<lambda>r. (k r, r)) xs, set_size = int (length xs)\<rparr>"

text \<open>
  The state \<open>s1\<close> of the search with \<^verbatim>\<open>MySet\<close> and \<^verbatim>\<open>MyWeakMap\<close> holds what the
  state \<open>s0\<close> of the native search holds: the same sets in the same order, the same
  links, and the scores as the properties \<open>gS\<close> and \<open>fS\<close> of the cells. The store of
  \<open>s1\<close> agrees with the store \<open>h0\<close> of the native search on the declared fields, and
  with the store \<open>hi\<close> the call started from on every other property and object.
\<close>

definition sim ::
  "store \<Rightarrow> store \<Rightarrow> Maze \<Rightarrow> string \<Rightarrow> string \<Rightarrow> search \<Rightarrow> search_native \<Rightarrow> bool" where
  "sim h0 hi maze gS fS s1 s0 \<longleftrightarrow>
     gS \<noteq> fS \<and>
     (\<forall>r. same_fields (cells s1 r) (h0 r)) \<and>
     (\<forall>r k. k \<noteq> gS \<longrightarrow> k \<noteq> fS \<longrightarrow> props (cells s1 r) k = props (hi r) k) \<and>
     (\<forall>r. r \<notin> maze_cells maze \<longrightarrow> cells s1 r = hi r) \<and>
     openSet s1 = keyed (\<lambda>r. uid (h0 r)) (openSet_native s0) \<and>
     closedSet s1 = keyed (\<lambda>r. uid (h0 r)) (closedSet_native s0) \<and>
     set (openSet_native s0) \<subseteq> maze_cells maze \<and>
     set (closedSet_native s0) \<subseteq> maze_cells maze \<and>
     distinct (openSet_native s0) \<and>
     (\<forall>r \<in> maze_cells maze. cameFrom s1 (uid (h0 r)) = cameFrom_native s0 (getId (h0 r))) \<and>
     (\<forall>k p. cameFrom_native s0 k = Some p \<longrightarrow> p \<in> maze_cells maze) \<and>
     (\<forall>r \<in> maze_cells maze. props (cells s1 r) gS = gScore_native s0 r
         \<and> props (cells s1 r) fS = fScore_native s0 r)"

text \<open>The state in which \<^verbatim>\<open>getPath\<close> enters its loop.\<close>

definition init_search :: "store \<Rightarrow> nat \<Rightarrow> ref \<Rightarrow> ref \<Rightarrow> search" where
  "init_search h n startPoint targetPoint =
     \<lparr>cells =
        MyWeakMap_set (''weakmap'' @ string_of_nat (Suc n)) startPoint
          (cost (h startPoint) (h targetPoint))
          (MyWeakMap_set (''weakmap'' @ string_of_nat n) startPoint (Num 0) h),
      openSet = keyed (\<lambda>u. uid (h u)) [startPoint],
      closedSet = keyed (\<lambda>u. uid (h u)) [],
      cameFrom = Map.empty\<rparr>"

text \<open>What a call leaves behind, relative to the store it started from.\<close>

definition frame :: "Maze \<Rightarrow> nat \<Rightarrow> store \<Rightarrow> store \<Rightarrow> bool" where
  "frame maze n h h' \<longleftrightarrow>
     (\<forall>r. same_fields (h' r) (h r)) \<and>
     (\<forall>r k. k \<noteq> ''weakmap'' @ string_of_nat n \<longrightarrow> k \<noteq> ''weakmap'' @ string_of_nat (Suc n)
         \<longrightarrow> props (h' r) k = props (h r) k) \<and>
     (\<forall>r. r \<notin> maze_cells maze \<longrightarrow> h' r = h r)"

section \<open>Lemmas\<close>

subsection \<open>Rendering of numbers\<close>

text \<open>
  Different numbers are rendered differently, and no digit is a colon: the ids \<^verbatim>\<open>i:j\<close>
  of different positions differ, and so do the names of different \<^verbatim>\<open>MyWeakMap\<close>s.
\<close>

lemma digit_char_code: "d < 10 \<Longrightarrow> (of_char (digit_char d) :: nat) = 48 + d"
  unfolding digit_char_def of_char_of by (rule mod_less) arith

lemma digit_char_inj:
  assumes "a < 10" "b < 10" "digit_char a = digit_char b"
  shows "a = b"
proof -
  have "(of_char (digit_char a) :: nat) = of_char (digit_char b)"
    using assms(3) by (rule arg_cong)
  then have "48 + a = 48 + b"
    by (simp only: digit_char_code [OF assms(1)] digit_char_code [OF assms(2)])
  then show ?thesis by arith
qed

lemma digit_char_not_colon:
  assumes "d < 10"
  shows "digit_char d \<noteq> CHR '':''"
proof
  assume "digit_char d = CHR '':''"
  then have "(of_char (digit_char d) :: nat) = of_char CHR '':''" by (rule arg_cong)
  moreover have "(of_char CHR '':'' :: nat) = 58" by simp
  ultimately have "48 + d = 58" by (simp only: digit_char_code [OF assms])
  with assms show False by arith
qed

lemma digit_char_not_minus:
  assumes "d < 10"
  shows "digit_char d \<noteq> CHR ''-''"
proof
  assume "digit_char d = CHR ''-''"
  then have "(of_char (digit_char d) :: nat) = of_char CHR ''-''" by (rule arg_cong)
  moreover have "(of_char CHR ''-'' :: nat) = 45" by simp
  ultimately have "48 + d = 45" by (simp only: digit_char_code [OF assms])
  then show False by arith
qed

lemma string_of_nat_small: "n < 10 \<Longrightarrow> string_of_nat n = [digit_char n]"
  by (subst string_of_nat.simps) simp

lemma string_of_nat_big:
  "\<not> n < 10 \<Longrightarrow> string_of_nat n = string_of_nat (n div 10) @ [digit_char (n mod 10)]"
  by (subst string_of_nat.simps) simp

lemma string_of_nat_nonempty: "string_of_nat n \<noteq> []"
  by (cases "n < 10") (simp_all add: string_of_nat_small string_of_nat_big)

lemma string_of_nat_nonempty': "[] \<noteq> string_of_nat n"
  using string_of_nat_nonempty [of n] by simp

lemma string_of_nat_chars:
  "c \<in> set (string_of_nat n) \<Longrightarrow> \<exists>d < 10. c = digit_char d"
proof (induction n rule: less_induct)
  case (less n)
  show ?case
  proof (cases "n < 10")
    case True
    with less.prems show ?thesis by (auto simp: string_of_nat_small)
  next
    case False
    then have lt: "n div 10 < n" by simp
    from less.prems False
    have "c \<in> set (string_of_nat (n div 10)) \<or> c = digit_char (n mod 10)"
      by (simp add: string_of_nat_big) blast
    then show ?thesis
    proof
      assume "c \<in> set (string_of_nat (n div 10))"
      then show ?thesis by (rule less.IH [OF lt])
    next
      assume "c = digit_char (n mod 10)"
      moreover have "n mod 10 < 10" by simp
      ultimately show ?thesis by blast
    qed
  qed
qed

lemma string_of_nat_inj: "string_of_nat n = string_of_nat m \<Longrightarrow> n = m"
proof (induction n arbitrary: m rule: less_induct)
  case (less n)
  show ?case
  proof (cases "n < 10")
    case True
    show ?thesis
    proof (cases "m < 10")
      case True
      with \<open>n < 10\<close> less.prems show ?thesis
        by (simp add: string_of_nat_small digit_char_inj)
    next
      case False
      with \<open>n < 10\<close> less.prems show ?thesis
        by (simp add: string_of_nat_small string_of_nat_big string_of_nat_nonempty')
    qed
  next
    case False
    show ?thesis
    proof (cases "m < 10")
      case True
      with \<open>\<not> n < 10\<close> less.prems show ?thesis
        by (simp add: string_of_nat_small string_of_nat_big string_of_nat_nonempty)
    next
      case mbig: False
      from False mbig less.prems
      have e: "string_of_nat (n div 10) = string_of_nat (m div 10)"
        and d: "digit_char (n mod 10) = digit_char (m mod 10)"
        by (simp_all add: string_of_nat_big)
      from False have "n div 10 < n" by simp
      from less.IH [OF this e] have "n div 10 = m div 10" .
      moreover from d have "n mod 10 = m mod 10" by (simp add: digit_char_inj)
      ultimately show ?thesis by (metis div_mult_mod_eq)
    qed
  qed
qed

lemma string_of_nat_no_colon: "CHR '':'' \<notin> set (string_of_nat n)"
proof
  assume "CHR '':'' \<in> set (string_of_nat n)"
  then obtain d where "d < 10" "CHR '':'' = digit_char d"
    using string_of_nat_chars by blast
  then show False using digit_char_not_colon [of d] by simp
qed

lemma string_of_nat_no_minus: "CHR ''-'' \<notin> set (string_of_nat n)"
proof
  assume "CHR ''-'' \<in> set (string_of_nat n)"
  then obtain d where "d < 10" "CHR ''-'' = digit_char d"
    using string_of_nat_chars by blast
  then show False using digit_char_not_minus [of d] by simp
qed

lemma string_of_int_inj: "string_of_int a = string_of_int b \<Longrightarrow> a = b"
proof -
  assume e: "string_of_int a = string_of_int b"
  have hdn: "\<And>n. hd (string_of_nat n) \<noteq> CHR ''-''"
    using string_of_nat_no_minus string_of_nat_nonempty by (metis hd_in_set)
  show ?thesis
  proof (cases "a < 0")
    case True
    show ?thesis
    proof (cases "b < 0")
      case True
      with \<open>a < 0\<close> e have "nat (- a) = nat (- b)"
        by (simp add: string_of_int_def string_of_nat_inj)
      with True \<open>a < 0\<close> show ?thesis by simp
    next
      case False
      with \<open>a < 0\<close> e hdn [of "nat b"] show ?thesis
        by (auto simp: string_of_int_def dest: arg_cong [where f = hd])
    qed
  next
    case False
    show ?thesis
    proof (cases "b < 0")
      case True
      with \<open>\<not> a < 0\<close> e hdn [of "nat a"] show ?thesis
        by (auto simp: string_of_int_def dest: arg_cong [where f = hd])
    next
      case bpos: False
      with False e have "nat a = nat b"
        by (simp add: string_of_int_def string_of_nat_inj)
      with False bpos show ?thesis by simp
    qed
  qed
qed

lemma string_of_int_no_colon: "CHR '':'' \<notin> set (string_of_int a)"
  by (simp add: string_of_int_def string_of_nat_no_colon)

lemma split_at_colon:
  assumes "xs @ CHR '':'' # ys = xs' @ CHR '':'' # ys'"
    and "CHR '':'' \<notin> set xs" and "CHR '':'' \<notin> set xs'"
  shows "xs = xs' \<and> ys = ys'"
  using assms
proof (induction xs arbitrary: xs')
  case Nil
  then show ?case by (cases xs') auto
next
  case (Cons x xs)
  then show ?case by (cases xs') auto
qed

lemma id_inj:
  "string_of_int a @ '':'' @ string_of_int b = string_of_int a' @ '':'' @ string_of_int b'
   \<Longrightarrow> a = a' \<and> b = b'"
  using split_at_colon [of "string_of_int a" "string_of_int b" "string_of_int a'" "string_of_int b'"]
  by (auto simp: string_of_int_no_colon dest: string_of_int_inj)

subsection \<open>Well-formed mazes\<close>

text \<open>
  On a well-formed maze a cell is known by its coordinates, by its id and by the key
  \<^verbatim>\<open>getId\<close> makes of its pixel position, and the neighbors the search computes are the
  unblocked 4-adjacent cells of the maze.
\<close>

lemma maze_cells_iff:
  "r \<in> maze_cells maze \<longleftrightarrow> (\<exists>a < length maze. \<exists>b < length (maze ! a). r = maze ! a ! b)"
proof
  assume "r \<in> maze_cells maze"
  then obtain row where "row \<in> set maze" "r \<in> set row"
    unfolding maze_cells_def set_concat by blast
  then obtain a b where "a < length maze" "row = maze ! a" "b < length row" "r = row ! b"
    unfolding in_set_conv_nth by blast
  then show "\<exists>a < length maze. \<exists>b < length (maze ! a). r = maze ! a ! b" by blast
next
  assume "\<exists>a < length maze. \<exists>b < length (maze ! a). r = maze ! a ! b"
  then obtain a b where ab: "a < length maze" "b < length (maze ! a)" "r = maze ! a ! b"
    by blast
  then have "maze ! a \<in> set maze" "r \<in> set (maze ! a)" by simp_all
  then show "r \<in> maze_cells maze" unfolding maze_cells_def set_concat by blast
qed

lemma wf_unit_at:
  "maze_wf u h maze \<Longrightarrow> a < length maze \<Longrightarrow> b < length (maze ! a)
   \<Longrightarrow> unit_at u (h (maze ! a ! b)) a b"
  by (simp add: maze_wf_def)

lemma wf_pos: "maze_wf u h maze \<Longrightarrow> 0 < u"
  by (simp add: maze_wf_def)

lemma wf_cell_at:
  assumes "maze_wf u h maze" "r \<in> maze_cells maze"
  obtains a b where "a < length maze" "b < length (maze ! a)" "r = maze ! a ! b"
    "unit_at u (h r) a b"
  using assms wf_unit_at unfolding maze_cells_iff by blast

lemma wf_coords_inj:
  assumes wf: "maze_wf u h maze" and r: "r \<in> maze_cells maze" and r': "r' \<in> maze_cells maze"
    and e: "ui (h r) = ui (h r')" "uj (h r) = uj (h r')"
  shows "r = r'"
proof -
  from wf r obtain a b where ab: "r = maze ! a ! b" "unit_at u (h r) a b"
    by (rule wf_cell_at)
  from wf r' obtain a' b' where ab': "r' = maze ! a' ! b'" "unit_at u (h r') a' b'"
    by (rule wf_cell_at)
  from ab(2) ab'(2) e have "a = a'" "b = b'" by (simp_all add: unit_at_def)
  with ab(1) ab'(1) show ?thesis by simp
qed

lemma wf_uid_inj:
  assumes wf: "maze_wf u h maze" and r: "r \<in> maze_cells maze" and r': "r' \<in> maze_cells maze"
    and e: "uid (h r) = uid (h r')"
  shows "r = r'"
proof -
  from wf r obtain a b where ab: "r = maze ! a ! b" "unit_at u (h r) a b"
    by (rule wf_cell_at)
  from wf r' obtain a' b' where ab': "r' = maze ! a' ! b'" "unit_at u (h r') a' b'"
    by (rule wf_cell_at)
  from ab(2) ab'(2) e
  have "string_of_int (int a) @ '':'' @ string_of_int (int b)
      = string_of_int (int a') @ '':'' @ string_of_int (int b')"
    by (simp add: unit_at_def)
  then have "int a = int a' \<and> int b = int b'" by (rule id_inj)
  with ab(1) ab'(1) show ?thesis by simp
qed

lemma wf_getId_inj:
  assumes wf: "maze_wf u h maze" and r: "r \<in> maze_cells maze" and r': "r' \<in> maze_cells maze"
    and e: "getId (h r) = getId (h r')"
  shows "r = r'"
proof -
  from e have "ux (h r) = ux (h r') \<and> uy (h r) = uy (h r')"
    unfolding getId_def by (rule id_inj)
  moreover from wf r obtain a b where ab: "unit_at u (h r) a b" by (rule wf_cell_at)
  moreover from wf r' obtain a' b' where ab': "unit_at u (h r') a' b'" by (rule wf_cell_at)
  moreover have "0 < u" using wf by (rule wf_pos)
  ultimately have "ui (h r) = ui (h r')" "uj (h r) = uj (h r')"
    by (simp_all add: unit_at_def)
  with wf r r' show ?thesis by (rule wf_coords_inj)
qed

lemma getMazeUnit_Some_iff:
  "getMazeUnit maze ix iy = Some r \<longleftrightarrow>
     (\<exists>a b. ix = int a \<and> iy = int b \<and> a < length maze \<and> b < length (maze ! a)
        \<and> r = maze ! a ! b)"
proof
  assume "getMazeUnit maze ix iy = Some r"
  then have "0 \<le> ix" "nat ix < length maze" "0 \<le> iy" "nat iy < length (maze ! nat ix)"
    "r = maze ! nat ix ! nat iy"
    by (auto simp: getMazeUnit_def Let_def split: if_splits)
  then show "\<exists>a b. ix = int a \<and> iy = int b \<and> a < length maze \<and> b < length (maze ! a)
        \<and> r = maze ! a ! b"
    by (intro exI [of _ "nat ix"] exI [of _ "nat iy"]) simp
next
  assume "\<exists>a b. ix = int a \<and> iy = int b \<and> a < length maze \<and> b < length (maze ! a)
        \<and> r = maze ! a ! b"
  then show "getMazeUnit maze ix iy = Some r"
    by (auto simp: getMazeUnit_def Let_def)
qed

lemma wf_getMazeUnit_iff:
  assumes wf: "maze_wf u h maze"
  shows "getMazeUnit maze ix iy = Some r \<longleftrightarrow>
           r \<in> maze_cells maze \<and> ui (h r) = ix \<and> uj (h r) = iy"
proof
  assume "getMazeUnit maze ix iy = Some r"
  then obtain a b where ab: "ix = int a" "iy = int b" "a < length maze"
    "b < length (maze ! a)" "r = maze ! a ! b"
    unfolding getMazeUnit_Some_iff by blast
  with wf have "unit_at u (h r) a b" by (simp add: wf_unit_at)
  with ab show "r \<in> maze_cells maze \<and> ui (h r) = ix \<and> uj (h r) = iy"
    unfolding maze_cells_iff by (auto simp: unit_at_def)
next
  assume a: "r \<in> maze_cells maze \<and> ui (h r) = ix \<and> uj (h r) = iy"
  with wf obtain a b where ab: "a < length maze" "b < length (maze ! a)" "r = maze ! a ! b"
    "unit_at u (h r) a b" using wf_cell_at by blast
  with a have "ix = int a" "iy = int b" by (simp_all add: unit_at_def)
  with ab show "getMazeUnit maze ix iy = Some r"
    unfolding getMazeUnit_Some_iff by blast
qed

lemma set_neighbors:
  "set (neighbors h maze i j) =
     {r. \<not> isBlock (h r) \<and>
         (getMazeUnit maze (i - 1) j = Some r \<or> getMazeUnit maze i (j - 1) = Some r \<or>
          getMazeUnit maze i (j + 1) = Some r \<or> getMazeUnit maze (i + 1) j = Some r)}"
  unfolding neighbors_def by (auto simp: List.map_filter_def)

lemma wf_step_iff:
  assumes wf: "maze_wf u h maze"
  shows "step h maze a b \<longleftrightarrow>
           b \<in> maze_cells maze \<and> \<not> isBlock (h b) \<and> adjacent4 (h a) (h b)"
  unfolding step_def set_neighbors wf_getMazeUnit_iff [OF wf] adjacent4_def
  by auto

subsection \<open>Exact arithmetic\<close>

text \<open>
  An integer of magnitude up to \<open>2^53\<close> is a double, so sums and costs that stay in
  this range are those of the integers.
\<close>

lemma excess_bits_small: "m < 2 ^ 53 \<Longrightarrow> excess_bits m = 0"
  by (subst excess_bits.simps) simp

lemma excess_bits_53: "excess_bits (2 ^ 53) = 1"
  by (subst excess_bits.simps) (simp add: excess_bits_small)

lemma round_even_53: "round_even (2 ^ 53) = 2 ^ 53"
  unfolding round_even_def excess_bits_53 Let_def by simp

lemma double_of_int_exact:
  assumes "\<bar>k\<bar> \<le> 2 ^ 53"
  shows "double_of_int k = Num k"
proof (cases "\<bar>k\<bar> < 2 ^ 53")
  case True
  then show ?thesis by (simp only: double_of_int_def if_True)
next
  case False
  with assms have k: "\<bar>k\<bar> = 2 ^ 53" by (rule order.antisym [OF _ leI])
  then have "nat \<bar>k\<bar> = nat (2 ^ 53)" by (rule arg_cong)
  also have "nat ((2::int) ^ 53) = 2 ^ 53"
    by (simp only: nat_power_eq nat_numeral zero_le_numeral)
  finally have n: "nat \<bar>k\<bar> = 2 ^ 53" .
  have "(2::nat) ^ 53 < 2 ^ 1024" by (rule power_strict_increasing) simp_all
  then have big: "((2::nat) ^ 1024 \<le> 2 ^ 53) = False"
    by (simp only: not_le [symmetric] simp_thms)
  have "(if k < 0 then - int (2 ^ 53) else int (2 ^ 53)) = k"
  proof (cases "k < 0")
    case True
    with k have "- k = 2 ^ 53" by (simp only: abs_of_neg)
    then have "k = - (2 ^ 53)" by (simp only: minus_equation_iff [of k] eq_commute)
    with True show ?thesis by (simp only: if_True of_nat_power of_nat_numeral)
  next
    case False
    with k have "k = 2 ^ 53" by (simp only: abs_of_nonneg not_less)
    with False show ?thesis by (simp only: if_False of_nat_power of_nat_numeral)
  qed
  then show ?thesis
    unfolding double_of_int_def Let_def n round_even_53 big
    using False by (simp only: if_False)
qed

lemma num_add_exact: "\<bar>a + b\<bar> \<le> 2 ^ 53 \<Longrightarrow> num_add (Num a) (Num b) = Num (a + b)"
  by (simp only: num_add.simps double_of_int_exact)

lemma num_sub_exact: "\<bar>a - b\<bar> \<le> 2 ^ 53 \<Longrightarrow> num_sub (Num a) (Num b) = Num (a - b)"
  by (simp only: num_sub.simps double_of_int_exact)

lemma cost_exact:
  assumes "\<bar>ux a - ux b\<bar> + \<bar>uy a - uy b\<bar> \<le> 2 ^ 53"
  shows "cost a b = Num (\<bar>ux a - ux b\<bar> + \<bar>uy a - uy b\<bar>)"
proof -
  have x: "\<bar>ux a - ux b\<bar> \<le> 2 ^ 53" and y: "\<bar>uy a - uy b\<bar> \<le> 2 ^ 53"
    using assms by linarith+
  have s: "\<bar>\<bar>ux a - ux b\<bar> + \<bar>uy a - uy b\<bar>\<bar> \<le> 2 ^ 53"
    using assms by linarith
  show ?thesis
    unfolding cost_def num_sub_exact [OF x] num_sub_exact [OF y] num_abs.simps
    by (rule num_add_exact [OF s])
qed

text \<open>
  Beyond the range a sum can be infinite. With a unit size of \<open>2^1022\<close>, a score of
  three units and the cost of one more move add up to \<^verbatim>\<open>Infinity\<close>, which is not
  less than the \<^verbatim>\<open>Infinity\<close> that \<^verbatim>\<open>mapGet\<close> gives for a cell without a score: such
  a cell is opened, but gets neither a link nor a score.
\<close>

lemma excess_bits_pow: "excess_bits (2 ^ (53 + e)) = Suc e"
proof (induction e)
  case 0
  show ?case using excess_bits_53 by simp
next
  case (Suc e)
  have big: "\<not> (2::nat) ^ (53 + Suc e) < 2 ^ 53"
    unfolding not_less by (rule power_increasing) simp_all
  have "(2::nat) ^ (53 + Suc e) = 2 * 2 ^ (53 + e)" by (simp only: add_Suc_right power_Suc)
  then have half: "(2::nat) ^ (53 + Suc e) div 2 = 2 ^ (53 + e)" by simp
  show ?case
    by (subst excess_bits.simps) (simp only: big if_False half Suc.IH)
qed

lemma round_even_pow: "round_even (2 ^ (53 + e)) = 2 ^ (53 + e)"
proof -
  have d: "(2::nat) ^ (53 + e) = 2 ^ 52 * 2 ^ Suc e"
    by (simp only: power_add [symmetric]) simp
  have q: "(2::nat) ^ (53 + e) div 2 ^ Suc e = 2 ^ 52" unfolding d by simp
  have r: "(2::nat) ^ (53 + e) mod 2 ^ Suc e = 0" unfolding d by simp
  have "0 < (2::nat) ^ Suc e" by simp
  then have c: "2 * 0 < (2::nat) ^ Suc e" by simp
  show ?thesis
    unfolding round_even_def excess_bits_pow Let_def q r
    by (simp only: c simp_thms if_True d)
qed

lemma double_of_int_overflow: "double_of_int (2 ^ 1024) = Infinity"
proof -
  have e: "(1024::nat) = 53 + 971" by simp
  have n: "nat \<bar>(2::int) ^ 1024\<bar> = 2 ^ 1024"
    by (simp only: power_abs abs_numeral nat_power_eq nat_numeral zero_le_numeral)
  have small: "\<not> \<bar>(2::int) ^ 1024\<bar> < 2 ^ 53"
    unfolding not_less power_abs abs_numeral by (rule power_increasing) simp_all
  have r: "round_even (2 ^ 1024) = 2 ^ 1024"
    unfolding e by (rule round_even_pow)
  have pos: "\<not> (2::int) ^ 1024 < 0" unfolding not_less by (rule zero_le_power) simp
  show ?thesis
    unfolding double_of_int_def Let_def n r
    by (simp only: small pos if_False order_refl if_True)
qed

lemma sum_overflow:
  "num_add (Num (3 * 2 ^ 1022)) (Num (2 ^ 1022)) = Infinity \<and>
   num_ge (num_add (Num (3 * 2 ^ 1022)) (Num (2 ^ 1022))) Infinity"
proof -
  have "(3 * 2 ^ 1022 + 2 ^ 1022 :: int) = 2 ^ 1024" by simp
  then show ?thesis by (simp only: num_add.simps double_of_int_overflow num_ge.simps simp_thms)
qed

lemma wf_row_length:
  assumes wf: "maze_wf u h maze" and a: "a < length maze"
  shows "length (maze ! a) \<le> card (maze_cells maze)"
proof -
  have d: "distinct (maze ! a)"
    unfolding distinct_conv_nth
  proof (intro allI impI)
    fix i j assume i: "i < length (maze ! a)" and j: "j < length (maze ! a)" and ne: "i \<noteq> j"
    from wf a i have "unit_at u (h (maze ! a ! i)) a i" by (rule wf_unit_at)
    then have 1: "uj (h (maze ! a ! i)) = int i" by (simp add: unit_at_def)
    from wf a j have "unit_at u (h (maze ! a ! j)) a j" by (rule wf_unit_at)
    then have 2: "uj (h (maze ! a ! j)) = int j" by (simp add: unit_at_def)
    from 1 2 ne show "maze ! a ! i \<noteq> maze ! a ! j" by auto
  qed
  from a have "maze ! a \<in> set maze" by simp
  then have "set (maze ! a) \<subseteq> maze_cells maze" unfolding maze_cells_def set_concat by blast
  moreover have "finite (maze_cells maze)" by (simp add: maze_cells_def)
  ultimately have "card (set (maze ! a)) \<le> card (maze_cells maze)" by (intro card_mono)
  with d show ?thesis by (simp add: distinct_card)
qed

subsection \<open>The scan for the least score\<close>

lemma pick_current_mem: "pick_current f xs c \<in> insert c (set xs)"
proof (induction xs arbitrary: c)
  case Nil
  then show ?case by (simp add: pick_current_def)
next
  case (Cons x xs)
  let ?c' = "if num_lt (ToNumber (f x)) (ToNumber (f c)) then x else c"
  have "pick_current f (x # xs) c = pick_current f xs ?c'"
    by (simp add: pick_current_def)
  with Cons.IH [of ?c'] show ?case by auto
qed

subsection \<open>Cost and heuristic\<close>

text \<open>
  A move costs one unit, the heuristic drops by at most one unit along a move, and in a
  maze of the size \<open>exact_range\<close> the cost between two cells is computed exactly.
\<close>

lemma wf_step_cells:
  "maze_wf u h maze \<Longrightarrow> step h maze a b \<Longrightarrow> b \<in> maze_cells maze"
  by (simp add: wf_step_iff)

lemma wf_step_cost:
  assumes wf: "maze_wf u h maze" and a: "a \<in> maze_cells maze" and st: "step h maze a b"
  shows "\<bar>ux (h a) - ux (h b)\<bar> + \<bar>uy (h a) - uy (h b)\<bar> = u"
proof -
  from st wf have b: "b \<in> maze_cells maze" and adj: "adjacent4 (h a) (h b)"
    by (simp_all add: wf_step_iff)
  from wf a obtain i j where 1: "unit_at u (h a) i j" by (rule wf_cell_at)
  from wf b obtain i' j' where 2: "unit_at u (h b) i' j'" by (rule wf_cell_at)
  have u: "0 < u" using wf by (rule wf_pos)
  from 1 2 have x: "ux (h a) - ux (h b) = (ui (h a) - ui (h b)) * u"
    and y: "uy (h a) - uy (h b) = (uj (h a) - uj (h b)) * u"
    by (simp_all add: unit_at_def algebra_simps)
  from adj u show ?thesis unfolding x y abs_mult adjacent4_def by auto
qed

lemma heur_step:
  assumes wf: "maze_wf u h maze" and a: "a \<in> maze_cells maze" and st: "step h maze a b"
  shows "heur h t a \<le> u + heur h t b"
  using wf_step_cost [OF wf a st] unfolding heur_def by linarith

lemma heur_walk:
  assumes wf: "maze_wf u h maze"
  shows "q \<noteq> [] \<Longrightarrow> successively (step h maze) q \<Longrightarrow> hd q \<in> maze_cells maze
     \<Longrightarrow> heur h t (hd q) \<le> u * (int (length q) - 1) + heur h t (last q)"
proof (induction q)
  case Nil
  then show ?case by simp
next
  case (Cons a q)
  show ?case
  proof (cases q)
    case Nil
    then show ?thesis by simp
  next
    case (Cons b q')
    with Cons.prems have st: "step h maze a b" and su: "successively (step h maze) q"
      and a: "a \<in> maze_cells maze" by simp_all
    from wf st have b: "hd q \<in> maze_cells maze" using Cons by (simp add: wf_step_cells)
    from Cons.IH [OF _ su b] Cons
    have "heur h t b \<le> u * (int (length q) - 1) + heur h t (last q)" by simp
    moreover have "heur h t a \<le> u + heur h t b" using wf a st by (rule heur_step)
    ultimately show ?thesis using Cons by (simp add: algebra_simps)
  qed
qed

lemma wf_heur:
  assumes wf: "maze_wf u h maze" and a: "a \<in> maze_cells maze" and b: "b \<in> maze_cells maze"
  shows "heur h b a = u * (\<bar>ui (h a) - ui (h b)\<bar> + \<bar>uj (h a) - uj (h b)\<bar>)"
proof -
  from wf a obtain i j where 1: "unit_at u (h a) i j" by (rule wf_cell_at)
  from wf b obtain i' j' where 2: "unit_at u (h b) i' j'" by (rule wf_cell_at)
  have u: "0 < u" using wf by (rule wf_pos)
  from 1 2 have x: "ux (h a) - ux (h b) = u * (ui (h a) - ui (h b))"
    and y: "uy (h a) - uy (h b) = u * (uj (h a) - uj (h b))"
    by (simp_all add: unit_at_def algebra_simps)
  from u show ?thesis unfolding heur_def x y abs_mult by (simp add: algebra_simps)
qed

lemma heur_nonneg: "0 \<le> heur h t r"
  by (simp add: heur_def)

lemma heur_bound:
  assumes wf: "maze_wf u h maze" and a: "a \<in> maze_cells maze" and b: "b \<in> maze_cells maze"
  shows "heur h b a \<le> u * int (length maze) + u * int (card (maze_cells maze))"
proof -
  from wf a obtain i j where ij: "i < length maze" "j < length (maze ! i)"
    "unit_at u (h a) i j" by (rule wf_cell_at)
  from wf b obtain i' j' where ij': "i' < length maze" "j' < length (maze ! i')"
    "unit_at u (h b) i' j'" by (rule wf_cell_at)
  from wf_row_length [OF wf ij(1)] ij(2) have j: "j < card (maze_cells maze)" by simp
  from wf_row_length [OF wf ij'(1)] ij'(2) have j': "j' < card (maze_cells maze)" by simp
  from ij(3) ij'(3) have co: "ui (h a) = int i" "uj (h a) = int j"
    "ui (h b) = int i'" "uj (h b) = int j'"
    by (simp_all add: unit_at_def)
  have "\<bar>ui (h a) - ui (h b)\<bar> + \<bar>uj (h a) - uj (h b)\<bar>
      \<le> int (length maze) + int (card (maze_cells maze))"
    unfolding co using ij(1) ij'(1) j j' by linarith
  moreover have "0 \<le> u" using wf_pos [OF wf] by simp
  ultimately have "u * (\<bar>ui (h a) - ui (h b)\<bar> + \<bar>uj (h a) - uj (h b)\<bar>)
      \<le> u * (int (length maze) + int (card (maze_cells maze)))"
    by (rule mult_left_mono)
  then show ?thesis unfolding wf_heur [OF wf a b] by (simp add: algebra_simps)
qed

lemma exact_rangeD:
  "exact_range u maze \<Longrightarrow>
     2 * (u * int (card (maze_cells maze))) + u * int (length maze) \<le> 2 ^ 53"
  by (simp add: exact_range_def algebra_simps)

lemma cost_heur:
  assumes wf: "maze_wf u h maze" and ex: "exact_range u maze"
    and r: "r \<in> maze_cells maze" and t: "t \<in> maze_cells maze"
  shows "cost (h r) (h t) = Num (heur h t r)"
proof -
  have u: "0 < u" using wf by (rule wf_pos)
  then have "0 \<le> u * int (card (maze_cells maze))" by simp
  with heur_bound [OF wf r t] exact_rangeD [OF ex]
  have "heur h t r \<le> 2 ^ 53" by linarith
  then show ?thesis unfolding heur_def by (rule cost_exact)
qed

lemma cost_step:
  assumes wf: "maze_wf u h maze" and ex: "exact_range u maze"
    and a: "a \<in> maze_cells maze" and st: "step h maze a b"
  shows "cost (h a) (h b) = Num u"
proof -
  from wf st have b: "b \<in> maze_cells maze" by (rule wf_step_cells)
  from cost_heur [OF wf ex a b] wf_step_cost [OF wf a st] show ?thesis
    by (simp add: heur_def)
qed

subsection \<open>Walks\<close>

lemma walk_single: "walk h maze a a [a]"
  by (simp add: walk_def)

lemma walk_snoc:
  "walk h maze a b q \<Longrightarrow> step h maze b c \<Longrightarrow> walk h maze a c (q @ [c])"
  by (auto simp: walk_def successively_append_iff)

lemma walk_snocE:
  assumes "walk h maze a c (q @ [x])"
  shows "x = c \<and> ((q = [] \<and> a = c) \<or> (walk h maze a (last q) q \<and> step h maze (last q) c))"
  using assms by (cases "q = []") (auto simp: walk_def successively_append_iff)

lemma walk_cells:
  assumes wf: "maze_wf u h maze" and a: "a \<in> maze_cells maze"
  shows "walk h maze a b q \<Longrightarrow> set q \<subseteq> maze_cells maze"
proof (induction q arbitrary: b rule: rev_induct)
  case Nil
  then show ?case by simp
next
  case (snoc x q)
  from walk_snocE [OF snoc.prems]
  have x: "x = b" and d: "(q = [] \<and> a = b) \<or> (walk h maze a (last q) q \<and> step h maze (last q) b)"
    by blast+
  from d show ?case
  proof
    assume "q = [] \<and> a = b" with x a show ?thesis by simp
  next
    assume w: "walk h maze a (last q) q \<and> step h maze (last q) b"
    then have "set q \<subseteq> maze_cells maze" using snoc.IH by blast
    moreover from w wf have "b \<in> maze_cells maze" by (auto dest: wf_step_cells)
    ultimately show ?thesis using x by simp
  qed
qed

subsection \<open>The sets of the native search\<close>

lemma set_Set_add [simp]: "set (Set_add xs x) = insert x (set xs)"
  by (auto simp: Set_add_def)

lemma distinct_Set_add [simp]: "distinct (Set_add xs x) = distinct xs"
  by (auto simp: Set_add_def)

lemma Set_add_member: "x \<in> set xs \<Longrightarrow> Set_add xs x = xs"
  by (simp add: Set_add_def)

lemma set_Set_delete [simp]: "set (Set_delete xs x) = set xs - {x}"
  by (auto simp: Set_delete_def)

lemma distinct_Set_delete [simp]: "distinct xs \<Longrightarrow> distinct (Set_delete xs x)"
  by (simp add: Set_delete_def distinct_removeAll)

subsection \<open>Chains of links\<close>

text \<open>
  \<^verbatim>\<open>buildPath\<close> returns the chain of links of the cell it is given, and a chain only
  depends on the links of its own cells.
\<close>

lemma bpn_None: "buildPath_native_loop h frm None acc = Some acc"
  by (subst buildPath_native_loop.simps) simp

lemma bpn_Some_None:
  "frm (getId (h r)) = None \<Longrightarrow> buildPath_native_loop h frm (Some r) acc = Some acc"
  by (subst buildPath_native_loop.simps) (simp add: bpn_None)

lemma bpn_Some_Some:
  "frm (getId (h r)) = Some p \<Longrightarrow>
   buildPath_native_loop h frm (Some r) acc = buildPath_native_loop h frm (Some p) (acc @ [p])"
  by (subst buildPath_native_loop.simps) simp

lemma links_buildPath:
  "links h frm r q \<Longrightarrow> buildPath_native_loop h frm (Some r) acc = Some (acc @ q)"
proof (induction q arbitrary: r acc)
  case Nil
  then show ?case by (simp add: bpn_Some_None)
next
  case (Cons p q)
  then have p: "frm (getId (h r)) = Some p" and l: "links h frm p q" by simp_all
  from Cons.IH [OF l, of "acc @ [p]"] show ?case
    unfolding bpn_Some_Some [of frm h r p acc, OF p] by simp
qed

lemma links_update:
  "links h frm r q \<Longrightarrow> k \<notin> (\<lambda>c. getId (h c)) ` set (r # q) \<Longrightarrow> links h (frm(k \<mapsto> v)) r q"
proof (induction q arbitrary: r)
  case Nil
  then show ?case by auto
next
  case (Cons p q)
  then have l: "links h frm p q" and k: "k \<notin> (\<lambda>c. getId (h c)) ` set (p # q)"
    and kr: "k \<noteq> getId (h r)" and p: "frm (getId (h r)) = Some p" by auto
  from l k have "links h (frm(k \<mapsto> v)) p q" by (rule Cons.IH)
  moreover from p kr have "(frm(k \<mapsto> v)) (getId (h r)) = Some p" by simp
  ultimately show ?case unfolding links.simps by blast
qed

lemma links_steps:
  assumes str: "inv_struct maze s" and lnk: "inv_link h maze s"
  shows "r \<in> maze_cells maze \<Longrightarrow> links h (cameFrom_native s) r q \<Longrightarrow>
     successively (\<lambda>c d. step h maze d c) (r # q) \<and> set q \<subseteq> maze_cells maze \<and>
     (\<forall>c \<in> set (butlast (r # q)). gScore_native s c \<noteq> None \<and> fScore_native s c \<noteq> None)"
proof (induction q arbitrary: r)
  case Nil
  then show ?case by simp
next
  case (Cons p q)
  then have p: "cameFrom_native s (getId (h r)) = Some p"
    and l: "links h (cameFrom_native s) p q" by simp_all
  from lnk Cons.prems(1) p have pc: "p \<in> set (closedSet_native s)" and st: "step h maze p r"
    and sc: "gScore_native s r \<noteq> None" "fScore_native s r \<noteq> None"
    unfolding inv_link_def by blast+
  from pc str have pcell: "p \<in> maze_cells maze" by (auto simp: inv_struct_def)
  from Cons.IH [OF pcell l]
  have ih: "successively (\<lambda>c d. step h maze d c) (p # q)" "set q \<subseteq> maze_cells maze"
    "\<forall>c \<in> set (butlast (p # q)). gScore_native s c \<noteq> None \<and> fScore_native s c \<noteq> None"
    by blast+
  from ih(1) st have "successively (\<lambda>c d. step h maze d c) (r # p # q)" by simp
  moreover from ih(2) pcell have "set (p # q) \<subseteq> maze_cells maze" by simp
  moreover from ih(3) sc
  have "\<forall>c \<in> set (butlast (r # p # q)). gScore_native s c \<noteq> None \<and> fScore_native s c \<noteq> None"
    by simp
  ultimately show ?case by blast
qed

lemma visited_chain:
  assumes lnk: "inv_link h maze s" and chn: "inv_chain h s" and r: "r \<in> maze_cells maze"
  shows "\<exists>q. links h (cameFrom_native s) r q \<and> set q \<subseteq> set (closedSet_native s)"
proof (cases "cameFrom_native s (getId (h r))")
  case None
  then have "links h (cameFrom_native s) r [] \<and> set [] \<subseteq> set (closedSet_native s)" by simp
  then show ?thesis by blast
next
  case (Some p)
  with lnk r have "p \<in> set (closedSet_native s)" unfolding inv_link_def by blast
  with chn obtain q where "links h (cameFrom_native s) p q" "set q \<subseteq> set (closedSet_native s)"
    unfolding inv_chain_def by blast
  with Some \<open>p \<in> set (closedSet_native s)\<close>
  have "links h (cameFrom_native s) r (p # q) \<and> set (p # q) \<subseteq> set (closedSet_native s)"
    by simp
  then show ?thesis by blast
qed

subsection \<open>Visiting the neighbors: what holds whatever the scores are\<close>

lemma visit_closed:
  "n \<in> set (closedSet_native s) \<Longrightarrow> visit_neighbor_native h t c n s = s"
  by (simp add: visit_neighbor_native_def)

lemma visit_cases:
  assumes "n \<notin> set (closedSet_native s)"
  shows "visit_neighbor_native h t c n s
           = s\<lparr>openSet_native := Set_add (openSet_native s) n\<rparr> \<or>
         (\<exists>T F. visit_neighbor_native h t c n s
           = s\<lparr>openSet_native := Set_add (openSet_native s) n,
               cameFrom_native := (cameFrom_native s)(getId (h n) \<mapsto> c),
               gScore_native := (gScore_native s)(n \<mapsto> T),
               fScore_native := (fScore_native s)(n \<mapsto> F)\<rparr>)"
  using assms by (auto simp: visit_neighbor_native_def Let_def)

lemma search_inv_visit:
  assumes wf: "maze_wf u h maze"
    and inv: "search_inv h maze start t c D s"
    and c: "c \<in> set (closedSet_native s)" and st: "step h maze c n"
    and nc: "n \<notin> set (closedSet_native s)"
    and cl: "closedSet_native s' = closedSet_native s"
    and op: "openSet_native s' = Set_add (openSet_native s) n"
    and upd: "(cameFrom_native s' = cameFrom_native s \<and> gScore_native s' = gScore_native s
                \<and> fScore_native s' = fScore_native s) \<or>
              (cameFrom_native s' = (cameFrom_native s)(getId (h n) \<mapsto> c)
                \<and> (\<exists>T. gScore_native s' = (gScore_native s)(n \<mapsto> T))
                \<and> (\<exists>F. fScore_native s' = (fScore_native s)(n \<mapsto> F)))"
  shows "search_inv h maze start t c (insert n D) s'"
proof -
  from inv have str: "inv_struct maze s" and sta: "inv_start h start t s"
    and rea: "inv_reach h maze start s" and fro: "inv_frontier h maze c D s"
    and lnk: "inv_link h maze s" and chn: "inv_chain h s"
    and tg: "t \<notin> set (closedSet_native s)"
    by (simp_all add: search_inv_def)
  have ncell: "n \<in> maze_cells maze" using wf st by (rule wf_step_cells)
  have clsub: "set (closedSet_native s) \<subseteq> maze_cells maze"
    using str by (simp add: inv_struct_def)
  have vis': "visited s' = insert n (visited s)" by (simp add: visited_def cl op)
  have cvis: "c \<in> visited s" using c by (simp add: visited_def)
  have startc: "start \<in> set (closedSet_native s)"
    using sta c unfolding inv_start_def by auto
  have start_n: "start \<noteq> n" using startc nc by blast
  have startcell: "start \<in> maze_cells maze" using startc clsub by blast
  have key: "getId (h r) \<noteq> getId (h n)" if "r \<in> maze_cells maze" "r \<noteq> n" for r
    using wf that ncell by (metis wf_getId_inj)
  have from_other: "cameFrom_native s' (getId (h r)) = cameFrom_native s (getId (h r))"
    if "r \<in> maze_cells maze" "r \<noteq> n" for r
    using upd key [OF that] by auto
  have g_other: "gScore_native s' r = gScore_native s r" if "r \<noteq> n" for r
    using upd that by auto
  have f_other: "fScore_native s' r = fScore_native s r" if "r \<noteq> n" for r
    using upd that by auto
  have 1: "inv_struct maze s'"
    using str ncell nc unfolding inv_struct_def by (simp add: cl op)
  have 2: "inv_start h start t s'"
    using sta startc start_n startcell
    by (simp add: inv_start_def cl from_other g_other f_other)
  have 3: "inv_reach h maze start s'"
    unfolding inv_reach_def
  proof
    fix r assume "r \<in> visited s'"
    then consider "r = n" | "r \<in> visited s" using vis' by auto
    then show "\<exists>q. walk h maze start r q"
    proof cases
      case 1
      from rea cvis obtain q where "walk h maze start c q" unfolding inv_reach_def by blast
      from walk_snoc [OF this st] 1 show ?thesis by blast
    next
      case 2
      with rea show ?thesis unfolding inv_reach_def by blast
    qed
  qed
  have 4: "inv_frontier h maze c (insert n D) s'"
    using fro unfolding inv_frontier_def vis' cl by blast
  have 5: "inv_link h maze s'"
    unfolding inv_link_def
  proof (intro ballI allI impI)
    fix r p assume r: "r \<in> maze_cells maze" and p: "cameFrom_native s' (getId (h r)) = Some p"
    have old: "p \<in> set (closedSet_native s') \<and> r \<in> visited s' \<and> step h maze p r \<and>
        gScore_native s' r \<noteq> None \<and> fScore_native s' r \<noteq> None"
      if "cameFrom_native s (getId (h r)) = Some p" "gScore_native s' r = gScore_native s r"
        "fScore_native s' r = fScore_native s r"
      using lnk r that unfolding inv_link_def vis' cl by auto
    from upd show "p \<in> set (closedSet_native s') \<and> r \<in> visited s' \<and> step h maze p r \<and>
        gScore_native s' r \<noteq> None \<and> fScore_native s' r \<noteq> None"
    proof (elim disjE conjE exE)
      assume "cameFrom_native s' = cameFrom_native s" "gScore_native s' = gScore_native s"
        "fScore_native s' = fScore_native s"
      with p old show ?thesis by simp
    next
      fix T F assume a: "cameFrom_native s' = (cameFrom_native s)(getId (h n) \<mapsto> c)"
        "gScore_native s' = (gScore_native s)(n \<mapsto> T)"
        "fScore_native s' = (fScore_native s)(n \<mapsto> F)"
      show ?thesis
      proof (cases "r = n")
        case True
        with p a(1) have "p = c" by simp
        with True c st a vis' cl show ?thesis by simp
      next
        case False
        with r p have "cameFrom_native s (getId (h r)) = Some p" by (simp add: from_other)
        with False old show ?thesis by (simp add: g_other f_other)
      qed
    qed
  qed
  have 6: "inv_chain h s'"
    unfolding inv_chain_def cl
  proof
    fix r assume r: "r \<in> set (closedSet_native s)"
    with chn obtain q where q: "links h (cameFrom_native s) r q"
      "set q \<subseteq> set (closedSet_native s)"
      unfolding inv_chain_def by blast
    have "getId (h n) \<notin> (\<lambda>c. getId (h c)) ` set (r # q)"
    proof
      assume "getId (h n) \<in> (\<lambda>c. getId (h c)) ` set (r # q)"
      then obtain x where x: "x \<in> set (r # q)" "getId (h n) = getId (h x)" by blast
      with r q(2) have xc: "x \<in> set (closedSet_native s)" by auto
      with nc have "x \<noteq> n" by blast
      moreover from xc clsub have "x \<in> maze_cells maze" by blast
      ultimately show False using key x(2) by auto
    qed
    with q(1) have "links h ((cameFrom_native s)(getId (h n) \<mapsto> c)) r q"
      by (rule links_update)
    with upd q(1) have "links h (cameFrom_native s') r q" by auto
    with q(2) show "\<exists>q. links h (cameFrom_native s') r q \<and> set q \<subseteq> set (closedSet_native s)"
      by blast
  qed
  from 1 2 3 4 5 6 tg cl show ?thesis by (simp add: search_inv_def)
qed

lemma visit_search_inv:
  assumes wf: "maze_wf u h maze"
    and inv: "search_inv h maze start t c D s"
    and c: "c \<in> set (closedSet_native s)" and st: "step h maze c n"
  shows "search_inv h maze start t c (insert n D) (visit_neighbor_native h t c n s)
       \<and> closedSet_native (visit_neighbor_native h t c n s) = closedSet_native s"
proof (cases "n \<in> set (closedSet_native s)")
  case True
  then have same: "visit_neighbor_native h t c n s = s" by (rule visit_closed)
  from True have "n \<in> visited s" by (simp add: visited_def)
  with inv have "search_inv h maze start t c (insert n D) s"
    unfolding search_inv_def inv_frontier_def by blast
  with same show ?thesis by simp
next
  case False
  from visit_cases [OF False, of h t c]
  show ?thesis
  proof (elim disjE exE)
    assume e: "visit_neighbor_native h t c n s
        = s\<lparr>openSet_native := Set_add (openSet_native s) n\<rparr>"
    have "search_inv h maze start t c (insert n D)
        (s\<lparr>openSet_native := Set_add (openSet_native s) n\<rparr>)"
      by (rule search_inv_visit [OF wf inv c st False]) simp_all
    with e show ?thesis by simp
  next
    fix T F assume e: "visit_neighbor_native h t c n s
        = s\<lparr>openSet_native := Set_add (openSet_native s) n,
            cameFrom_native := (cameFrom_native s)(getId (h n) \<mapsto> c),
            gScore_native := (gScore_native s)(n \<mapsto> T),
            fScore_native := (fScore_native s)(n \<mapsto> F)\<rparr>"
    have "search_inv h maze start t c (insert n D)
        (s\<lparr>openSet_native := Set_add (openSet_native s) n,
            cameFrom_native := (cameFrom_native s)(getId (h n) \<mapsto> c),
            gScore_native := (gScore_native s)(n \<mapsto> T),
            fScore_native := (fScore_native s)(n \<mapsto> F)\<rparr>)"
      by (rule search_inv_visit [OF wf inv c st False]) auto
    with e show ?thesis by simp
  qed
qed

lemma visit_fold_search_inv:
  assumes wf: "maze_wf u h maze"
  shows "search_inv h maze start t c D s \<Longrightarrow> c \<in> set (closedSet_native s)
     \<Longrightarrow> \<forall>n \<in> set ns. step h maze c n
     \<Longrightarrow> search_inv h maze start t c (D \<union> set ns) (fold (visit_neighbor_native h t c) ns s)
       \<and> closedSet_native (fold (visit_neighbor_native h t c) ns s) = closedSet_native s"
proof (induction ns arbitrary: D s)
  case Nil
  then show ?case by simp
next
  case (Cons n ns)
  from Cons.prems have st: "step h maze c n" by simp
  from visit_search_inv [OF wf Cons.prems(1) Cons.prems(2) st]
  have 1: "search_inv h maze start t c (insert n D) (visit_neighbor_native h t c n s)"
    and 2: "closedSet_native (visit_neighbor_native h t c n s) = closedSet_native s"
    by blast+
  from 2 Cons.prems(2) have 3: "c \<in> set (closedSet_native (visit_neighbor_native h t c n s))"
    by simp
  from Cons.prems(3) have 4: "\<forall>n \<in> set ns. step h maze c n" by simp
  have e: "insert n D \<union> set ns = D \<union> set (n # ns)" by auto
  from Cons.IH [OF 1 3 4] 2 show ?case unfolding e by simp
qed

lemma init_search_inv:
  assumes start: "start \<in> maze_cells maze"
  shows "search_inv h maze start t cur UNIV
       \<lparr>openSet_native = [start], closedSet_native = [],
        cameFrom_native = Map.empty,
        gScore_native = [start \<mapsto> Num 0],
        fScore_native = [start \<mapsto> cost (h start) (h t)]\<rparr>"
proof -
  have "\<exists>q. walk h maze start start q" using walk_single by blast
  then show ?thesis
    using start
    by (simp add: search_inv_def inv_struct_def inv_start_def inv_reach_def inv_frontier_def
        inv_link_def inv_chain_def visited_def)
qed

lemma close_search_inv:
  assumes wf: "maze_wf u h maze"
    and inv: "search_inv h maze start t cur UNIV s"
    and op: "openSet_native s = first # rest"
    and c: "c = pick_current (fScore_native s) (first # rest) first"
    and ct: "c \<noteq> t"
    and s2: "s2 = s\<lparr>openSet_native := Set_delete (openSet_native s) c,
                   closedSet_native := Set_add (closedSet_native s) c\<rparr>"
  shows "search_inv h maze start t c {} s2 \<and> c \<in> set (closedSet_native s2)
       \<and> length (closedSet_native s2) = Suc (length (closedSet_native s))"
proof -
  from inv have str: "inv_struct maze s" and sta: "inv_start h start t s"
    and rea: "inv_reach h maze start s" and fro: "inv_frontier h maze cur UNIV s"
    and lnk: "inv_link h maze s" and chn: "inv_chain h s"
    and tg: "t \<notin> set (closedSet_native s)"
    by (simp_all add: search_inv_def)
  from pick_current_mem [of "fScore_native s" "first # rest" first] c op
  have cin: "c \<in> set (openSet_native s)" by simp
  with str have cnc: "c \<notin> set (closedSet_native s)" and ccell: "c \<in> maze_cells maze"
    unfolding inv_struct_def by blast+
  have vis: "visited s2 = visited s" using cin by (auto simp: visited_def s2)
  have [simp]: "gScore_native s2 = gScore_native s" "fScore_native s2 = fScore_native s"
    "cameFrom_native s2 = cameFrom_native s" by (simp_all add: s2)
  have cl: "set (closedSet_native s2) = insert c (set (closedSet_native s))" by (simp add: s2)
  have 1: "inv_struct maze s2"
    using str cin unfolding inv_struct_def by (auto simp: s2)
  have "start \<in> set (closedSet_native s2)"
  proof (cases "start \<in> set (closedSet_native s)")
    case True
    then show ?thesis by (simp add: cl)
  next
    case False
    with sta have "openSet_native s = [start]" by (simp add: inv_start_def)
    with cin have "c = start" by simp
    then show ?thesis by (simp add: cl)
  qed
  with sta have 2: "inv_start h start t s2" by (simp add: inv_start_def)
  have 3: "inv_reach h maze start s2" using rea unfolding inv_reach_def vis by simp
  have 4: "inv_frontier h maze c {} s2"
    using fro unfolding inv_frontier_def vis cl by auto
  have 5: "inv_link h maze s2"
    using lnk unfolding inv_link_def vis cl by auto
  have 6: "inv_chain h s2"
    unfolding inv_chain_def cl
  proof
    fix r assume "r \<in> insert c (set (closedSet_native s))"
    then have "r \<in> maze_cells maze" using ccell str by (auto simp: inv_struct_def)
    from visited_chain [OF lnk chn this]
    show "\<exists>q. links h (cameFrom_native s2) r q \<and> set q \<subseteq> insert c (set (closedSet_native s))"
      by auto
  qed
  have 7: "t \<notin> set (closedSet_native s2)" using tg ct unfolding cl by simp
  have 8: "length (closedSet_native s2) = Suc (length (closedSet_native s))"
    using cnc by (simp add: s2 Set_add_def)
  from 1 2 3 4 5 6 7 8 cl show ?thesis by (simp add: search_inv_def)
qed

lemma frontier_complete:
  assumes "search_inv h maze start t c (set (neighbors h maze (ui (h c)) (uj (h c)))) s"
  shows "search_inv h maze start t cur UNIV s"
  using assms unfolding search_inv_def inv_frontier_def step_def by blast

lemma closed_bound:
  assumes "inv_struct maze s"
  shows "length (closedSet_native s) \<le> card (maze_cells maze)"
proof -
  from assms have d: "distinct (closedSet_native s)"
    and sub: "set (closedSet_native s) \<subseteq> maze_cells maze"
    by (simp_all add: inv_struct_def)
  have "finite (maze_cells maze)" by (simp add: maze_cells_def)
  with sub have "card (set (closedSet_native s)) \<le> card (maze_cells maze)"
    by (simp add: card_mono)
  with d show ?thesis by (simp add: distinct_card)
qed

lemma native_next_search_inv:
  assumes wf: "maze_wf u h maze"
    and inv: "search_inv h maze start t cur UNIV s"
    and op: "openSet_native s = first # rest"
    and c: "c = pick_current (fScore_native s) (first # rest) first"
    and ct: "c \<noteq> t"
  shows "search_inv h maze start t c UNIV (native_next h maze t s c) \<and>
     card (maze_cells maze) - length (closedSet_native (native_next h maze t s c))
       < card (maze_cells maze) - length (closedSet_native s)"
proof -
  define s2 where "s2 = s\<lparr>openSet_native := Set_delete (openSet_native s) c,
                   closedSet_native := Set_add (closedSet_native s) c\<rparr>"
  define ns where "ns = neighbors h maze (ui (h c)) (uj (h c))"
  define s3 where "s3 = fold (visit_neighbor_native h t c) ns s2"
  have s3: "native_next h maze t s c = s3" by (simp add: native_next_def s3_def ns_def s2_def)
  from close_search_inv [OF wf inv op c ct s2_def]
  have i2: "search_inv h maze start t c {} s2" and c2: "c \<in> set (closedSet_native s2)"
    and l2: "length (closedSet_native s2) = Suc (length (closedSet_native s))"
    by blast+
  have "\<forall>n \<in> set ns. step h maze c n" by (simp add: step_def ns_def)
  from visit_fold_search_inv [OF wf i2 c2 this]
  have i3: "search_inv h maze start t c (set ns) s3"
    and c3: "closedSet_native s3 = closedSet_native s2"
    by (simp_all add: s3_def)
  from i3 have i3': "search_inv h maze start t c UNIV s3"
    unfolding ns_def by (rule frontier_complete)
  then have "inv_struct maze s3" by (simp add: search_inv_def)
  then have "length (closedSet_native s3) \<le> card (maze_cells maze)" by (rule closed_bound)
  with c3 l2 have "card (maze_cells maze) - length (closedSet_native s3)
      < card (maze_cells maze) - length (closedSet_native s)" by simp
  with i3' show ?thesis unfolding s3 by simp
qed

text \<open>Once the open set is empty, every walk from the start ends in a closed cell.\<close>

lemma closed_walk:
  assumes inv: "search_inv h maze start t cur UNIV s" and op: "openSet_native s = []"
  shows "walk h maze start c q \<Longrightarrow> c \<in> set (closedSet_native s)"
proof (induction q arbitrary: c rule: rev_induct)
  case Nil
  then show ?case by (simp add: walk_def)
next
  case (snoc x q)
  from inv have sta: "inv_start h start t s" and fro: "inv_frontier h maze cur UNIV s"
    by (simp_all add: search_inv_def)
  from walk_snocE [OF snoc.prems]
  have d: "(q = [] \<and> start = c) \<or> (walk h maze start (last q) q \<and> step h maze (last q) c)"
    by blast
  from d show ?case
  proof
    assume "q = [] \<and> start = c"
    with sta op show ?thesis by (auto simp: inv_start_def)
  next
    assume w: "walk h maze start (last q) q \<and> step h maze (last q) c"
    with snoc.IH have "last q \<in> set (closedSet_native s)" by blast
    with fro w have "c \<in> visited s" unfolding inv_frontier_def by blast
    with op show ?thesis by (simp add: visited_def)
  qed
qed

subsection \<open>The scan for the least score, on integer scores\<close>

lemma pick_current_min:
  assumes "\<forall>r \<in> insert c (set xs). \<exists>n. f r = Some (Num n)"
  shows "pick_current f xs c \<in> insert c (set xs) \<and>
         (\<forall>w \<in> insert c (set xs). score (f (pick_current f xs c)) \<le> score (f w))"
  using assms
proof (induction xs arbitrary: c)
  case Nil
  then show ?case by (simp add: pick_current_def)
next
  case (Cons x xs)
  let ?c' = "if num_lt (ToNumber (f x)) (ToNumber (f c)) then x else c"
  have unfold: "pick_current f (x # xs) c = pick_current f xs ?c'"
    by (simp add: pick_current_def)
  from Cons.prems obtain n m where n: "f x = Some (Num n)" and m: "f c = Some (Num m)"
    by auto
  have c': "?c' \<in> {x, c}" by simp
  have le: "score (f ?c') \<le> score (f x)" "score (f ?c') \<le> score (f c)"
    using n m by (auto simp: ToNumber_def score_def)
  have "\<forall>r \<in> insert ?c' (set xs). \<exists>n. f r = Some (Num n)"
    using Cons.prems by auto
  from Cons.IH [OF this]
  have ih: "pick_current f xs ?c' \<in> insert ?c' (set xs)"
      "\<forall>w \<in> insert ?c' (set xs). score (f (pick_current f xs ?c')) \<le> score (f w)"
    by blast+
  from ih(1) c' have 1: "pick_current f xs ?c' \<in> insert c (set (x # xs))" by auto
  have 2: "score (f (pick_current f xs ?c')) \<le> score (f w)"
    if "w \<in> insert c (set (x # xs))" for w
  proof -
    from ih(2) have a: "score (f (pick_current f xs ?c')) \<le> score (f ?c')" by blast
    from that consider "w = c" | "w = x" | "w \<in> set xs" by auto
    then show ?thesis
    proof cases
      case 1 with a le(2) show ?thesis by simp
    next
      case 2 with a le(1) show ?thesis by simp
    next
      case 3 with ih(2) show ?thesis by blast
    qed
  qed
  from 1 2 show ?case unfolding unfold by blast
qed

subsection \<open>The cell picked from the open set is settled\<close>

text \<open>
  Along a walk from the start to a cell that is not closed there is an open cell
  whose score is at most the cost of the walk up to it. The picked cell has the least
  \<^verbatim>\<open>fScore\<close> of the open set, so its score is at most the cost of every walk to it.
\<close>

lemma score_Num [simp]: "score (Some (Num n)) = n"
  by (simp add: score_def)

lemma inv_scoresD:
  assumes "inv_scores h t s" "r \<in> visited s"
  obtains n where "0 \<le> n" "gScore_native s r = Some (Num n)"
    "fScore_native s r = Some (Num (n + heur h t r))"
  using assms unfolding inv_scores_def by blast

lemma frontier:
  assumes inv: "astar_inv u h maze start t cur UNIV s"
  shows "walk h maze start c q \<Longrightarrow>
     (\<exists>q1 q2. q = q1 @ q2 \<and> q2 \<noteq> [] \<and> hd q2 \<in> set (openSet_native s)
         \<and> score (gScore_native s (hd q2)) \<le> u * int (length q1))
     \<or> c \<in> set (closedSet_native s)"
proof (induction q arbitrary: c rule: rev_induct)
  case Nil
  then show ?case by (simp add: walk_def)
next
  case (snoc x q)
  from inv have frm: "inv_from u h maze start s" and opt: "inv_opt u h maze start s"
    and edge: "inv_edge u h maze cur UNIV s"
    by (simp_all add: astar_inv_def)
  from walk_snocE [OF snoc.prems]
  have x: "x = c" and d: "(q = [] \<and> start = c) \<or> (walk h maze start (last q) q \<and> step h maze (last q) c)"
    by blast+
  from d show ?case
  proof
    assume e: "q = [] \<and> start = c"
    from frm have "start \<in> visited s" "gScore_native s start = Some (Num 0)"
      by (simp_all add: inv_from_def)
    then show ?thesis
    proof (cases "start \<in> set (openSet_native s)")
      case True
      with e x \<open>gScore_native s start = Some (Num 0)\<close>
      have "q @ [x] = [] @ [c] \<and> [c] \<noteq> [] \<and> hd [c] \<in> set (openSet_native s)
         \<and> score (gScore_native s (hd [c])) \<le> u * int (length ([]::ref list))"
        by simp
      then show ?thesis by blast
    next
      case False
      with \<open>start \<in> visited s\<close> e show ?thesis by (simp add: visited_def)
    qed
  next
    assume w: "walk h maze start (last q) q \<and> step h maze (last q) c"
    from snoc.IH [of "last q"] w
    consider (split) q1 q2 where "q = q1 @ q2" "q2 \<noteq> []" "hd q2 \<in> set (openSet_native s)"
        "score (gScore_native s (hd q2)) \<le> u * int (length q1)"
      | (closed) "last q \<in> set (closedSet_native s)"
      by blast
    then show ?thesis
    proof cases
      case split
      then have "q @ [x] = q1 @ (q2 @ [x]) \<and> q2 @ [x] \<noteq> [] \<and> hd (q2 @ [x]) \<in> set (openSet_native s)
         \<and> score (gScore_native s (hd (q2 @ [x]))) \<le> u * int (length q1)"
        by simp
      then show ?thesis by blast
    next
      case closed
      from w have qne: "q \<noteq> []" by (simp add: walk_def)
      from opt closed w have g1: "score (gScore_native s (last q)) \<le> u * (int (length q) - 1)"
        unfolding inv_opt_def by blast
      from edge closed w have "c \<in> visited s"
        and g2: "score (gScore_native s c) \<le> score (gScore_native s (last q)) + u"
        unfolding inv_edge_def by blast+
      from g1 g2 have g: "score (gScore_native s c) \<le> u * int (length q)"
        by (simp add: algebra_simps)
      show ?thesis
      proof (cases "c \<in> set (openSet_native s)")
        case True
        with g x have "q @ [x] = q @ [c] \<and> [c] \<noteq> [] \<and> hd [c] \<in> set (openSet_native s)
           \<and> score (gScore_native s (hd [c])) \<le> u * int (length q)"
          by simp
        then show ?thesis by blast
      next
        case False
        with \<open>c \<in> visited s\<close> show ?thesis by (simp add: visited_def)
      qed
    qed
  qed
qed

lemma pick_in_open:
  assumes inv: "astar_inv u h maze start t cur D s"
    and op: "openSet_native s = first # rest"
    and c: "c = pick_current (fScore_native s) (first # rest) first"
  shows "c \<in> set (openSet_native s)"
proof -
  from inv have sc: "inv_scores h t s" by (simp add: astar_inv_def)
  have fs: "\<forall>r \<in> insert first (set (first # rest)). \<exists>n. fScore_native s r = Some (Num n)"
    using sc op unfolding inv_scores_def visited_def by auto
  from pick_current_min [OF fs] c op show ?thesis by auto
qed

lemma selection:
  assumes wf: "maze_wf u h maze" and start: "start \<in> maze_cells maze"
    and inv: "astar_inv u h maze start t cur UNIV s"
    and op: "openSet_native s = first # rest"
    and c: "c = pick_current (fScore_native s) (first # rest) first"
    and w: "walk h maze start c q"
  shows "c \<in> set (openSet_native s) \<and> score (gScore_native s c) \<le> u * (int (length q) - 1)"
proof -
  from inv have str: "inv_struct maze s" and sc: "inv_scores h t s"
    by (simp_all add: astar_inv_def)
  have fs: "\<forall>r \<in> insert first (set (first # rest)). \<exists>n. fScore_native s r = Some (Num n)"
    using sc op unfolding inv_scores_def visited_def by auto
  from pick_current_min [OF fs] c op
  have cin: "c \<in> set (openSet_native s)"
    and cmin: "\<forall>w \<in> set (openSet_native s). score (fScore_native s c) \<le> score (fScore_native s w)"
    by auto
  from cin str have "c \<notin> set (closedSet_native s)" unfolding inv_struct_def by blast
  with frontier [OF inv w] obtain q1 q2 where q: "q = q1 @ q2" "q2 \<noteq> []"
    "hd q2 \<in> set (openSet_native s)" "score (gScore_native s (hd q2)) \<le> u * int (length q1)"
    by blast
  have fg: "score (fScore_native s r) = score (gScore_native s r) + heur h t r"
    if "r \<in> set (openSet_native s)" for r
  proof -
    from that have "r \<in> visited s" by (simp add: visited_def)
    with sc obtain n where "gScore_native s r = Some (Num n)"
      "fScore_native s r = Some (Num (n + heur h t r))" by (rule inv_scoresD)
    then show ?thesis by simp
  qed
  from w q have su: "successively (step h maze) q2" and l: "last q2 = c"
    by (simp_all add: walk_def successively_append_iff)
  from walk_cells [OF wf start w] q have "hd q2 \<in> maze_cells maze" by auto
  from heur_walk [OF wf q(2) su this] l
  have hw: "heur h t (hd q2) \<le> u * (int (length q2) - 1) + heur h t c" by simp
  from cmin q(3) have "score (fScore_native s c) \<le> score (fScore_native s (hd q2))" by blast
  then have "score (gScore_native s c) + heur h t c
     \<le> score (gScore_native s (hd q2)) + heur h t (hd q2)"
    using fg [OF cin] fg [OF q(3)] by simp
  with q(4) hw have "score (gScore_native s c) \<le> u * int (length q1) + u * (int (length q2) - 1)"
    by linarith
  also have "\<dots> = u * (int (length q) - 1)" using q(1) by (simp add: algebra_simps)
  finally show ?thesis using cin by simp
qed

subsection \<open>Visiting the neighbors: exact scores\<close>

text \<open>What one visit does, once the scores involved are known.\<close>

lemma visit_keep:
  assumes "n \<notin> set (closedSet_native s)" "gScore_native s c = Some (Num gc)"
    "cost (h c) (h n) = Num u" "num_add (Num gc) (Num u) = Num (gc + u)"
    "gScore_native s n = Some (Num gn)" "gn \<le> gc + u"
  shows "visit_neighbor_native h t c n s
       = s\<lparr>openSet_native := Set_add (openSet_native s) n\<rparr>"
  using assms
  by (simp add: visit_neighbor_native_def mapGet_native_def ToNumber_def Let_def
      del: num_add.simps)

lemma visit_update:
  assumes "n \<notin> set (closedSet_native s)" "gScore_native s c = Some (Num gc)"
    "cost (h c) (h n) = Num u" "num_add (Num gc) (Num u) = Num (gc + u)"
    "cost (h n) (h t) = Num (heur h t n)"
    "num_add (Num (gc + u)) (Num (heur h t n)) = Num (gc + u + heur h t n)"
    "gScore_native s n = None \<or> (\<exists>gn. gScore_native s n = Some (Num gn) \<and> gc + u < gn)"
  shows "visit_neighbor_native h t c n s
       = s\<lparr>openSet_native := Set_add (openSet_native s) n,
           cameFrom_native := (cameFrom_native s)(getId (h n) \<mapsto> c),
           gScore_native := (gScore_native s)(n \<mapsto> Num (gc + u)),
           fScore_native := (fScore_native s)(n \<mapsto> Num (gc + u + heur h t n))\<rparr>"
  using assms
  by (auto simp add: visit_neighbor_native_def mapGet_native_def ToNumber_def Let_def
      simp del: num_add.simps)

lemma inv_edge_insert:
  assumes "inv_edge u h maze c D s"
    and "n \<in> visited s" "score (gScore_native s n) \<le> score (gScore_native s c) + u"
  shows "inv_edge u h maze c (insert n D) s"
  using assms unfolding inv_edge_def by blast

lemma astar_inv_edge_insert:
  assumes "astar_inv u h maze start t c D s"
    and "n \<in> visited s" "score (gScore_native s n) \<le> score (gScore_native s c) + u"
  shows "astar_inv u h maze start t c (insert n D) s"
  using assms inv_edge_insert unfolding astar_inv_def by blast

lemma visit_inv_update:
  assumes wf: "maze_wf u h maze" and start: "start \<in> maze_cells maze"
    and inv: "astar_inv u h maze start t c D s"
    and c: "c \<in> set (closedSet_native s)" and st: "step h maze c n"
    and nc: "n \<notin> set (closedSet_native s)"
    and gc: "gScore_native s c = Some (Num gc)"
    and gn: "gScore_native s n = None \<or> (\<exists>gn. gScore_native s n = Some (Num gn) \<and> gc + u < gn)"
    and s': "s' = s\<lparr>openSet_native := Set_add (openSet_native s) n,
           cameFrom_native := (cameFrom_native s)(getId (h n) \<mapsto> c),
           gScore_native := (gScore_native s)(n \<mapsto> Num (gc + u)),
           fScore_native := (fScore_native s)(n \<mapsto> Num (gc + u + heur h t n))\<rparr>"
  shows "astar_inv u h maze start t c (insert n D) s'"
proof -
  from inv have str: "inv_struct maze s" and sc: "inv_scores h t s"
    and frm: "inv_from u h maze start s" and real: "inv_real u h maze start s"
    and opt: "inv_opt u h maze start s" and edge: "inv_edge u h maze c D s"
    and bnd: "inv_bound u s" and tg: "t \<notin> set (closedSet_native s)"
    by (simp_all add: astar_inv_def)
  have u: "0 < u" using wf by (rule wf_pos)
  have ncell: "n \<in> maze_cells maze" using wf st by (rule wf_step_cells)
  have vis_cells: "visited s \<subseteq> maze_cells maze"
    using str by (auto simp: inv_struct_def visited_def)
  have cvis: "c \<in> visited s" using c by (simp add: visited_def)
  from sc cvis obtain gc' where "0 \<le> gc'" "gScore_native s c = Some (Num gc')"
    by (rule inv_scoresD)
  with gc have gc0: "0 \<le> gc" by simp
  have cn: "c \<noteq> n" using c nc by blast
  have [simp]: "closedSet_native s' = closedSet_native s" by (simp add: s')
  have [simp]: "set (openSet_native s') = insert n (set (openSet_native s))" by (simp add: s')
  have vis': "visited s' = insert n (visited s)" by (simp add: visited_def)
  have g_n [simp]: "gScore_native s' n = Some (Num (gc + u))" by (simp add: s')
  have f_n [simp]: "fScore_native s' n = Some (Num (gc + u + heur h t n))" by (simp add: s')
  have g_other: "gScore_native s' r = gScore_native s r" if "r \<noteq> n" for r
    using that by (simp add: s')
  have f_other: "fScore_native s' r = fScore_native s r" if "r \<noteq> n" for r
    using that by (simp add: s')
  have g_closed: "gScore_native s' p = gScore_native s p" if "p \<in> set (closedSet_native s)" for p
    using that nc by (intro g_other) blast
  have from_n: "cameFrom_native s' (getId (h n)) = Some c" by (simp add: s')
  have from_other: "cameFrom_native s' (getId (h r)) = cameFrom_native s (getId (h r))"
    if "r \<in> maze_cells maze" "r \<noteq> n" for r
  proof -
    from that ncell wf have "getId (h r) \<noteq> getId (h n)" by (metis wf_getId_inj)
    then show ?thesis by (simp add: s')
  qed
  have start_n: "start \<noteq> n"
  proof
    assume "start = n"
    with frm have "gScore_native s n = Some (Num 0)" by (simp add: inv_from_def)
    with gn gc0 u show False by auto
  qed
  have 1: "inv_struct maze s'"
    using str ncell nc unfolding inv_struct_def by (simp add: s')
  have 2: "inv_scores h t s'"
    unfolding inv_scores_def
  proof (intro conjI ballI allI impI)
    fix r assume r: "r \<in> visited s'"
    show "\<exists>n. 0 \<le> n \<and> gScore_native s' r = Some (Num n)
         \<and> fScore_native s' r = Some (Num (n + heur h t r))"
    proof (cases "r = n")
      case True
      with gc0 u show ?thesis by simp
    next
      case False
      with r vis' have "r \<in> visited s" by simp
      with sc obtain m where "0 \<le> m" "gScore_native s r = Some (Num m)"
        "fScore_native s r = Some (Num (m + heur h t r))" by (rule inv_scoresD)
      with False show ?thesis by (simp add: g_other f_other)
    qed
  next
    fix r assume "r \<notin> visited s'"
    with vis' have "r \<noteq> n" "r \<notin> visited s" by simp_all
    with sc show "gScore_native s' r = None" by (simp add: g_other inv_scores_def)
  qed
  have 3: "inv_from u h maze start s'"
    unfolding inv_from_def
  proof (intro conjI ballI allI impI)
    from frm have "cameFrom_native s (getId (h start)) = None" by (simp add: inv_from_def)
    with start start_n show "cameFrom_native s' (getId (h start)) = None"
      by (simp add: from_other)
    from frm vis' show "start \<in> visited s'" by (simp add: inv_from_def)
    from frm start_n show "gScore_native s' start = Some (Num 0)"
      by (simp add: inv_from_def g_other)
  next
    fix r p assume r: "r \<in> maze_cells maze" and p: "cameFrom_native s' (getId (h r)) = Some p"
    have "p \<in> set (closedSet_native s) \<and> r \<in> visited s' \<and> step h maze p r \<and>
        score (gScore_native s' r) = score (gScore_native s' p) + u"
    proof (cases "r = n")
      case True
      with p from_n have "p = c" by simp
      with True c st gc vis' show ?thesis by (simp add: g_closed)
    next
      case False
      with r p have "cameFrom_native s (getId (h r)) = Some p" by (simp add: from_other)
      with frm r have *: "p \<in> set (closedSet_native s)" "r \<in> visited s" "step h maze p r"
        "score (gScore_native s r) = score (gScore_native s p) + u"
        unfolding inv_from_def by blast+
      with False vis' show ?thesis by (simp add: g_closed g_other)
    qed
    then show "p \<in> set (closedSet_native s')" "r \<in> visited s'" "step h maze p r"
      "score (gScore_native s' r) = score (gScore_native s' p) + u" by simp_all
  next
    fix r assume r: "r \<in> visited s'" and rs: "r \<noteq> start"
    show "cameFrom_native s' (getId (h r)) \<noteq> None"
    proof (cases "r = n")
      case True
      with from_n show ?thesis by simp
    next
      case False
      with r vis' have rv: "r \<in> visited s" by simp
      with vis_cells have "r \<in> maze_cells maze" by blast
      with False have "cameFrom_native s' (getId (h r)) = cameFrom_native s (getId (h r))"
        by (simp add: from_other)
      moreover from frm rv rs have "cameFrom_native s (getId (h r)) \<noteq> None"
        unfolding inv_from_def by blast
      ultimately show ?thesis by simp
    qed
  qed
  have 4: "inv_real u h maze start s'"
    unfolding inv_real_def
  proof
    fix r assume r: "r \<in> visited s'"
    show "\<exists>q. walk h maze start r q \<and> score (gScore_native s' r) = u * (int (length q) - 1)"
    proof (cases "r = n")
      case True
      from real cvis obtain q where q: "walk h maze start c q"
        "score (gScore_native s c) = u * (int (length q) - 1)"
        unfolding inv_real_def by blast
      from q(1) st have "walk h maze start n (q @ [n])" by (rule walk_snoc)
      moreover from q(2) gc have "score (gScore_native s' n) = u * (int (length (q @ [n])) - 1)"
        by (simp add: algebra_simps)
      ultimately show ?thesis using True by blast
    next
      case False
      with r vis' have "r \<in> visited s" by simp
      with real False show ?thesis unfolding inv_real_def by (simp add: g_other)
    qed
  qed
  have 5: "inv_opt u h maze start s'"
    using opt unfolding inv_opt_def by (simp add: g_closed)
  have 6: "inv_edge u h maze c (insert n D) s'"
    unfolding inv_edge_def
  proof (intro ballI allI impI)
    fix p r assume "p \<in> set (closedSet_native s')" and pr: "step h maze p r"
    then have p: "p \<in> set (closedSet_native s)" by simp
    from edge p pr
    have old: "(p = c \<and> r \<notin> D) \<or>
        (r \<in> visited s \<and> score (gScore_native s r) \<le> score (gScore_native s p) + u)"
      unfolding inv_edge_def by blast
    show "(p = c \<and> r \<notin> insert n D) \<or>
        (r \<in> visited s' \<and> score (gScore_native s' r) \<le> score (gScore_native s' p) + u)"
    proof (cases "r = n")
      case True
      show ?thesis
      proof (cases "p = c")
        case True
        with \<open>r = n\<close> gc vis' show ?thesis by (simp add: g_closed [OF c])
      next
        case False
        with old have rv: "r \<in> visited s"
          and le: "score (gScore_native s r) \<le> score (gScore_native s p) + u" by blast+
        from sc rv obtain m where "gScore_native s r = Some (Num m)" by (rule inv_scoresD)
        with gn \<open>r = n\<close> have "gc + u < score (gScore_native s r)" by auto
        with le \<open>r = n\<close> vis' show ?thesis by (simp add: g_closed [OF p])
      qed
    next
      case False
      with old vis' show ?thesis by (auto simp: g_other g_closed [OF p])
    qed
  qed
  have 7: "inv_bound u s'"
    unfolding inv_bound_def
  proof (intro conjI ballI)
    fix r assume "r \<in> set (openSet_native s')"
    then consider "r = n" | "r \<noteq> n" "r \<in> set (openSet_native s)" by auto
    then show "score (gScore_native s' r) \<le> u * int (length (closedSet_native s'))"
    proof cases
      case 1
      from bnd c gc have "gc + u \<le> u * int (length (closedSet_native s))"
        unfolding inv_bound_def by fastforce
      with 1 show ?thesis by simp
    next
      case 2
      with bnd show ?thesis unfolding inv_bound_def by (simp add: g_other)
    qed
  next
    fix p assume "p \<in> set (closedSet_native s')"
    then have p: "p \<in> set (closedSet_native s)" by simp
    with bnd show "score (gScore_native s' p) + u \<le> u * int (length (closedSet_native s'))"
      unfolding inv_bound_def by (simp add: g_closed)
  qed
  from 1 2 3 4 5 6 7 tg show ?thesis by (simp add: astar_inv_def)
qed

lemma visit_inv:
  assumes wf: "maze_wf u h maze" and ex: "exact_range u maze"
    and start: "start \<in> maze_cells maze" and t: "t \<in> maze_cells maze"
    and inv: "astar_inv u h maze start t c D s"
    and c: "c \<in> set (closedSet_native s)" and st: "step h maze c n"
  shows "astar_inv u h maze start t c (insert n D) (visit_neighbor_native h t c n s)
       \<and> closedSet_native (visit_neighbor_native h t c n s) = closedSet_native s"
proof -
  from inv have str: "inv_struct maze s" and sc: "inv_scores h t s"
    and real: "inv_real u h maze start s" and opt: "inv_opt u h maze start s"
    and bnd: "inv_bound u s"
    by (simp_all add: astar_inv_def)
  have u: "0 < u" using wf by (rule wf_pos)
  have cvis: "c \<in> visited s" using c by (simp add: visited_def)
  from str c have ccell: "c \<in> maze_cells maze" by (auto simp: inv_struct_def)
  have ncell: "n \<in> maze_cells maze" using wf st by (rule wf_step_cells)
  from sc cvis obtain gc where gc0: "0 \<le> gc" and gc: "gScore_native s c = Some (Num gc)"
    by (rule inv_scoresD)
  have cst: "cost (h c) (h n) = Num u"
    using wf ex ccell st by (rule cost_step)
  have cnt: "cost (h n) (h t) = Num (heur h t n)"
    using wf ex ncell t by (rule cost_heur)
  from bnd c gc have "gc + u \<le> u * int (length (closedSet_native s))"
    unfolding inv_bound_def by fastforce
  moreover from closed_bound [OF str] u
  have "u * int (length (closedSet_native s)) \<le> u * int (card (maze_cells maze))"
    by simp
  ultimately have gle: "gc + u \<le> u * int (card (maze_cells maze))" by linarith
  have hb: "heur h t n \<le> u * int (length maze) + u * int (card (maze_cells maze))"
    using wf ncell t by (rule heur_bound)
  have h0: "0 \<le> heur h t n" by (rule heur_nonneg)
  have l0: "0 \<le> u * int (length maze)" using u by simp
  note rg = exact_rangeD [OF ex]
  have "\<bar>gc + u\<bar> \<le> 2 ^ 53" using gle gc0 u hb h0 l0 rg by linarith
  then have tent: "num_add (Num gc) (Num u) = Num (gc + u)" by (rule num_add_exact)
  have "\<bar>gc + u + heur h t n\<bar> \<le> 2 ^ 53" using gle gc0 u hb h0 l0 rg by linarith
  then have fsc: "num_add (Num (gc + u)) (Num (heur h t n)) = Num (gc + u + heur h t n)"
    by (rule num_add_exact)
  show ?thesis
  proof (cases "n \<in> set (closedSet_native s)")
    case True
    then have same: "visit_neighbor_native h t c n s = s" by (rule visit_closed)
    from real cvis obtain q where q: "walk h maze start c q"
      "score (gScore_native s c) = u * (int (length q) - 1)"
      unfolding inv_real_def by blast
    from q(1) st have "walk h maze start n (q @ [n])" by (rule walk_snoc)
    with opt True have "score (gScore_native s n) \<le> u * (int (length (q @ [n])) - 1)"
      unfolding inv_opt_def by blast
    with q(2) have "score (gScore_native s n) \<le> score (gScore_native s c) + u"
      by (simp add: algebra_simps)
    moreover from True have "n \<in> visited s" by (simp add: visited_def)
    ultimately show ?thesis using inv same by (simp add: astar_inv_edge_insert)
  next
    case nc: False
    show ?thesis
    proof (cases "n \<in> visited s")
      case True
      with nc have nopen: "n \<in> set (openSet_native s)" by (simp add: visited_def)
      from sc True obtain gn where gn: "gScore_native s n = Some (Num gn)" by (rule inv_scoresD)
      show ?thesis
      proof (cases "gn \<le> gc + u")
        case le: True
        from visit_keep [OF nc gc cst tent gn le] nopen
        have same: "visit_neighbor_native h t c n s = s" by (simp add: Set_add_member)
        from le gn gc have "score (gScore_native s n) \<le> score (gScore_native s c) + u" by simp
        with True inv same show ?thesis by (simp add: astar_inv_edge_insert)
      next
        case False
        with gn have cond: "gScore_native s n = None \<or>
            (\<exists>gn. gScore_native s n = Some (Num gn) \<and> gc + u < gn)" by simp
        from visit_update [OF nc gc cst tent cnt fsc cond]
          visit_inv_update [OF wf start inv c st nc gc cond]
        show ?thesis by simp
      qed
    next
      case False
      with sc have "gScore_native s n = None" by (simp add: inv_scores_def)
      then have cond: "gScore_native s n = None \<or>
            (\<exists>gn. gScore_native s n = Some (Num gn) \<and> gc + u < gn)" by simp
      from visit_update [OF nc gc cst tent cnt fsc cond]
        visit_inv_update [OF wf start inv c st nc gc cond]
      show ?thesis by simp
    qed
  qed
qed

lemma visit_fold_inv:
  assumes wf: "maze_wf u h maze" and ex: "exact_range u maze"
    and start: "start \<in> maze_cells maze" and t: "t \<in> maze_cells maze"
  shows "astar_inv u h maze start t c D s \<Longrightarrow> c \<in> set (closedSet_native s)
     \<Longrightarrow> \<forall>n \<in> set ns. step h maze c n
     \<Longrightarrow> astar_inv u h maze start t c (D \<union> set ns) (fold (visit_neighbor_native h t c) ns s)
       \<and> closedSet_native (fold (visit_neighbor_native h t c) ns s) = closedSet_native s"
proof (induction ns arbitrary: D s)
  case Nil
  then show ?case by simp
next
  case (Cons n ns)
  from Cons.prems have st: "step h maze c n" by simp
  from visit_inv [OF wf ex start t Cons.prems(1) Cons.prems(2) st]
  have 1: "astar_inv u h maze start t c (insert n D) (visit_neighbor_native h t c n s)"
    and 2: "closedSet_native (visit_neighbor_native h t c n s) = closedSet_native s"
    by blast+
  from 2 Cons.prems(2) have 3: "c \<in> set (closedSet_native (visit_neighbor_native h t c n s))"
    by simp
  from Cons.prems(3) have 4: "\<forall>n \<in> set ns. step h maze c n" by simp
  have e: "insert n D \<union> set ns = D \<union> set (n # ns)" by auto
  from Cons.IH [OF 1 3 4] 2 show ?case unfolding e by simp
qed

lemma init_inv:
  assumes wf: "maze_wf u h maze" and ex: "exact_range u maze"
    and start: "start \<in> maze_cells maze" and t: "t \<in> maze_cells maze"
  shows "astar_inv u h maze start t cur UNIV
       \<lparr>openSet_native = [start], closedSet_native = [],
        cameFrom_native = Map.empty,
        gScore_native = [start \<mapsto> Num 0],
        fScore_native = [start \<mapsto> cost (h start) (h t)]\<rparr>"
proof -
  have "walk h maze start start [start] \<and> (0::int) = u * (int (length [start]) - 1)"
    by (simp add: walk_single)
  then have "\<exists>q. walk h maze start start q \<and> (0::int) = u * (int (length q) - 1)" by blast
  then show ?thesis
    using start
    by (simp add: astar_inv_def inv_struct_def inv_scores_def inv_from_def inv_real_def
        inv_opt_def inv_edge_def inv_bound_def visited_def cost_heur [OF wf ex start t])
qed

lemma close_inv:
  assumes wf: "maze_wf u h maze" and start: "start \<in> maze_cells maze"
    and inv: "astar_inv u h maze start t cur UNIV s"
    and op: "openSet_native s = first # rest"
    and c: "c = pick_current (fScore_native s) (first # rest) first"
    and ct: "c \<noteq> t"
    and s2: "s2 = s\<lparr>openSet_native := Set_delete (openSet_native s) c,
                   closedSet_native := Set_add (closedSet_native s) c\<rparr>"
  shows "astar_inv u h maze start t c {} s2 \<and> c \<in> set (closedSet_native s2)
       \<and> length (closedSet_native s2) = Suc (length (closedSet_native s))"
proof -
  from inv have str: "inv_struct maze s" and sc: "inv_scores h t s"
    and frm: "inv_from u h maze start s" and real: "inv_real u h maze start s"
    and opt: "inv_opt u h maze start s" and edge: "inv_edge u h maze cur UNIV s"
    and bnd: "inv_bound u s" and tg: "t \<notin> set (closedSet_native s)"
    by (simp_all add: astar_inv_def)
  have u: "0 < u" using wf by (rule wf_pos)
  from selection [OF wf start inv op c]
  have sel: "\<And>q. walk h maze start c q \<Longrightarrow> score (gScore_native s c) \<le> u * (int (length q) - 1)"
    by blast
  have fs: "\<forall>r \<in> insert first (set (first # rest)). \<exists>n. fScore_native s r = Some (Num n)"
    using sc op unfolding inv_scores_def visited_def by auto
  from pick_current_min [OF fs] c op have cin: "c \<in> set (openSet_native s)" by auto
  with str have cnc: "c \<notin> set (closedSet_native s)" unfolding inv_struct_def by blast
  have vis: "visited s2 = visited s" using cin by (auto simp: visited_def s2)
  have [simp]: "gScore_native s2 = gScore_native s" "fScore_native s2 = fScore_native s"
    "cameFrom_native s2 = cameFrom_native s" by (simp_all add: s2)
  have cl: "set (closedSet_native s2) = insert c (set (closedSet_native s))" by (simp add: s2)
  have 1: "inv_struct maze s2"
    using str cin unfolding inv_struct_def by (auto simp: s2)
  have 2: "inv_scores h t s2" using sc unfolding inv_scores_def vis by simp
  have 3: "inv_from u h maze start s2"
    using frm unfolding inv_from_def vis cl by auto
  have 4: "inv_real u h maze start s2" using real unfolding inv_real_def vis by simp
  have 5: "inv_opt u h maze start s2"
    using opt sel unfolding inv_opt_def cl by auto
  have 6: "inv_edge u h maze c {} s2"
    using edge unfolding inv_edge_def vis cl by auto
  have 7: "t \<notin> set (closedSet_native s2)" using tg ct unfolding cl by simp
  have 8: "length (closedSet_native s2) = Suc (length (closedSet_native s))"
    using cnc by (simp add: s2 Set_add_def)
  have len: "u * int (length (closedSet_native s2)) = u * int (length (closedSet_native s)) + u"
    unfolding 8 by (simp add: algebra_simps)
  have 9: "inv_bound u s2"
    unfolding inv_bound_def len
  proof (intro conjI ballI)
    fix r assume "r \<in> set (openSet_native s2)"
    then have "r \<in> set (openSet_native s)" by (simp add: s2)
    with bnd have "score (gScore_native s r) \<le> u * int (length (closedSet_native s))"
      unfolding inv_bound_def by blast
    with u show "score (gScore_native s2 r) \<le> u * int (length (closedSet_native s)) + u"
      by simp
  next
    fix p assume "p \<in> set (closedSet_native s2)"
    then consider "p = c" | "p \<in> set (closedSet_native s)" unfolding cl by blast
    then show "score (gScore_native s2 p) + u \<le> u * int (length (closedSet_native s)) + u"
    proof cases
      case 1
      with bnd cin have "score (gScore_native s p) \<le> u * int (length (closedSet_native s))"
        unfolding inv_bound_def by blast
      then show ?thesis by simp
    next
      case 2
      with bnd have "score (gScore_native s p) + u \<le> u * int (length (closedSet_native s))"
        unfolding inv_bound_def by blast
      with u show ?thesis by simp
    qed
  qed
  from 1 2 3 4 5 6 7 8 9 cl show ?thesis by (simp add: astar_inv_def)
qed

lemma edge_complete:
  assumes "astar_inv u h maze start t c (set (neighbors h maze (ui (h c)) (uj (h c)))) s"
  shows "astar_inv u h maze start t cur UNIV s"
  using assms unfolding astar_inv_def inv_edge_def step_def by blast

subsection \<open>Reconstruction of the path\<close>

text \<open>
  With exact scores, the score drops by one unit along a link, so \<^verbatim>\<open>buildPath\<close>
  reaches the start, and the list it returns is a walk read backwards whose cost is the
  score of its first cell.
\<close>

lemma buildPath_native_chain:
  assumes wf: "maze_wf u h maze" and start: "start \<in> maze_cells maze"
    and inv: "astar_inv u h maze start t cur D s"
  shows "r \<in> visited s \<Longrightarrow> \<exists>q. chain_ok u h maze start s r q"
proof (induction "nat (score (gScore_native s r))" arbitrary: r rule: less_induct)
  case less
  from inv have str: "inv_struct maze s" and sc: "inv_scores h t s"
    and frm: "inv_from u h maze start s"
    by (simp_all add: astar_inv_def)
  have u: "0 < u" using wf by (rule wf_pos)
  show ?case
  proof (cases "r = start")
    case True
    from frm have "cameFrom_native s (getId (h start)) = None"
      "gScore_native s start = Some (Num 0)" by (simp_all add: inv_from_def)
    with True have "chain_ok u h maze start s r []"
      by (simp add: chain_ok_def bpn_Some_None walk_single)
    then show ?thesis by blast
  next
    case False
    from str less.prems have rcell: "r \<in> maze_cells maze"
      by (auto simp: inv_struct_def visited_def)
    from frm less.prems False obtain p where p: "cameFrom_native s (getId (h r)) = Some p"
      unfolding inv_from_def by blast
    with frm rcell have pc: "p \<in> set (closedSet_native s)" and st: "step h maze p r"
      and g: "score (gScore_native s r) = score (gScore_native s p) + u"
      unfolding inv_from_def by blast+
    from pc have pv: "p \<in> visited s" by (simp add: visited_def)
    from sc pv obtain gp where "0 \<le> gp" "gScore_native s p = Some (Num gp)"
      by (rule inv_scoresD)
    with g u have "nat (score (gScore_native s p)) < nat (score (gScore_native s r))" by simp
    from less.hyps [OF this pv] obtain q where q: "chain_ok u h maze start s p q" by blast
    from q have b: "\<And>acc. buildPath_native_loop h (cameFrom_native s) (Some p) acc = Some (acc @ q)"
      and w: "walk h maze start p (rev (p # q))"
      and gq: "score (gScore_native s p) = u * int (length q)"
      by (simp_all add: chain_ok_def)
    from w st have "walk h maze start r (rev (p # q) @ [r])" by (rule walk_snoc)
    then have "walk h maze start r (rev (r # p # q))" by simp
    moreover have "buildPath_native_loop h (cameFrom_native s) (Some r) acc = Some (acc @ p # q)"
      for acc using bpn_Some_Some [of "cameFrom_native s" h r p acc, OF p] b by simp
    moreover from g gq have "score (gScore_native s r) = u * int (length (p # q))"
      by (simp add: algebra_simps)
    ultimately have "chain_ok u h maze start s r (p # q)" by (simp add: chain_ok_def)
    then show ?thesis by blast
  qed
qed

subsection \<open>With exact scores the native search returns a shortest path\<close>

lemma native_loop_Nil:
  "openSet_native s = [] \<Longrightarrow> getPath_native_loop h maze t s = Some []"
  by (subst getPath_native_loop.simps) simp

lemma native_loop_return:
  assumes "openSet_native s = first # rest"
    and "c = pick_current (fScore_native s) (first # rest) first"
    and "ui (h c) = ui (h t) \<and> uj (h c) = uj (h t)"
  shows "getPath_native_loop h maze t s = buildPath_native h (cameFrom_native s) c"
  using assms by (subst getPath_native_loop.simps) (simp add: Let_def)

lemma native_loop_step:
  assumes "openSet_native s = first # rest"
    and "c = pick_current (fScore_native s) (first # rest) first"
    and "\<not> (ui (h c) = ui (h t) \<and> uj (h c) = uj (h t))"
  shows "getPath_native_loop h maze t s = getPath_native_loop h maze t (native_next h maze t s c)"
  using assms by (subst getPath_native_loop.simps) (auto simp add: Let_def native_next_def)

lemma native_next_inv:
  assumes wf: "maze_wf u h maze" and ex: "exact_range u maze"
    and start: "start \<in> maze_cells maze" and t: "t \<in> maze_cells maze"
    and inv: "astar_inv u h maze start t cur UNIV s"
    and op: "openSet_native s = first # rest"
    and c: "c = pick_current (fScore_native s) (first # rest) first"
    and ct: "c \<noteq> t"
  shows "astar_inv u h maze start t c UNIV (native_next h maze t s c) \<and>
     card (maze_cells maze) - length (closedSet_native (native_next h maze t s c))
       < card (maze_cells maze) - length (closedSet_native s)"
proof -
  define s2 where "s2 = s\<lparr>openSet_native := Set_delete (openSet_native s) c,
                   closedSet_native := Set_add (closedSet_native s) c\<rparr>"
  define ns where "ns = neighbors h maze (ui (h c)) (uj (h c))"
  define s3 where "s3 = fold (visit_neighbor_native h t c) ns s2"
  have s3: "native_next h maze t s c = s3" by (simp add: native_next_def s3_def ns_def s2_def)
  from close_inv [OF wf start inv op c ct s2_def]
  have i2: "astar_inv u h maze start t c {} s2" and c2: "c \<in> set (closedSet_native s2)"
    and l2: "length (closedSet_native s2) = Suc (length (closedSet_native s))"
    by blast+
  have "\<forall>n \<in> set ns. step h maze c n" by (simp add: step_def ns_def)
  from visit_fold_inv [OF wf ex start t i2 c2 this]
  have i3: "astar_inv u h maze start t c (set ns) s3"
    and c3: "closedSet_native s3 = closedSet_native s2"
    by (simp_all add: s3_def)
  from i3 have i3': "astar_inv u h maze start t c UNIV s3"
    unfolding ns_def by (rule edge_complete)
  then have "inv_struct maze s3" by (simp add: astar_inv_def)
  then have "length (closedSet_native s3) \<le> card (maze_cells maze)" by (rule closed_bound)
  with c3 l2 have "card (maze_cells maze) - length (closedSet_native s3)
      < card (maze_cells maze) - length (closedSet_native s)" by simp
  with i3' show ?thesis unfolding s3 by simp
qed

lemma getPath_native_loop_correct:
  assumes wf: "maze_wf u h maze" and ex: "exact_range u maze"
    and start: "start \<in> maze_cells maze" and t: "t \<in> maze_cells maze"
  shows "astar_inv u h maze start t cur UNIV s \<Longrightarrow>
     \<exists>path. getPath_native_loop h maze t s = Some path \<and> shortest_result h maze start t path"
proof (induction "card (maze_cells maze) - length (closedSet_native s)"
    arbitrary: s cur rule: less_induct)
  case less
  note inv = less.prems
  from inv have str: "inv_struct maze s" and tg: "t \<notin> set (closedSet_native s)"
    by (simp_all add: astar_inv_def)
  have u: "0 < u" using wf by (rule wf_pos)
  show ?case
  proof (cases "openSet_native s")
    case Nil
    have "\<not> walk h maze start t q" for q
    proof
      assume "walk h maze start t q"
      from frontier [OF inv this] Nil tg show False by simp
    qed
    moreover from Nil have "getPath_native_loop h maze t s = Some []"
      by (rule native_loop_Nil)
    ultimately show ?thesis by (simp add: shortest_result_def)
  next
    case (Cons first rest)
    define c where "c = pick_current (fScore_native s) (first # rest) first"
    have cin: "c \<in> set (openSet_native s)"
      using inv Cons c_def by (rule pick_in_open)
    have sel: "score (gScore_native s c) \<le> u * (int (length q) - 1)"
      if "walk h maze start c q" for q
      using selection [OF wf start inv Cons c_def that] by simp
    from cin str have ccell: "c \<in> maze_cells maze" by (auto simp: inv_struct_def)
    show ?thesis
    proof (cases "ui (h c) = ui (h t) \<and> uj (h c) = uj (h t)")
      case True
      with wf ccell t have ct: "c = t" by (simp add: wf_coords_inj)
      from Cons c_def True have run: "getPath_native_loop h maze t s
          = buildPath_native h (cameFrom_native s) c"
        by (rule native_loop_return)
      from cin have "c \<in> visited s" by (simp add: visited_def)
      from buildPath_native_chain [OF wf start inv this]
      obtain q where q: "chain_ok u h maze start s c q" by blast
      then have b: "buildPath_native h (cameFrom_native s) c = Some (c # q)"
        and w: "walk h maze start c (rev (c # q))"
        and g: "score (gScore_native s c) = u * int (length q)"
        by (simp_all add: chain_ok_def buildPath_native_def)
      have "length (c # q) \<le> length q'" if "walk h maze start t q'" for q'
      proof -
        from that ct sel have "u * int (length q) \<le> u * (int (length q') - 1)"
          unfolding g [symmetric] by simp
        with u have "int (length q) \<le> int (length q') - 1" by simp
        then show ?thesis by simp
      qed
      with w ct have "shortest_result h maze start t (c # q)"
        by (simp add: shortest_result_def)
      with run b show ?thesis by simp
    next
      case False
      then have cnt: "c \<noteq> t" by auto
      from Cons c_def False
      have run: "getPath_native_loop h maze t s
          = getPath_native_loop h maze t (native_next h maze t s c)"
        by (rule native_loop_step)
      from native_next_inv [OF wf ex start t inv Cons c_def cnt]
      have inv': "astar_inv u h maze start t c UNIV (native_next h maze t s c)"
        and dec: "card (maze_cells maze) - length (closedSet_native (native_next h maze t s c))
          < card (maze_cells maze) - length (closedSet_native s)"
        by blast+
      from less.hyps [OF dec inv'] run show ?thesis by simp
    qed
  qed
qed

lemma getPath_native_correct:
  assumes wf: "maze_wf u h maze" and ex: "exact_range u maze"
    and start: "start \<in> maze_cells maze" and t: "t \<in> maze_cells maze"
  shows "\<exists>path. getPath_native h maze start t = Some path \<and> shortest_result h maze start t path"
  unfolding getPath_native_def
  using getPath_native_loop_correct [OF wf ex start t init_inv [OF wf ex start t]] .

subsection \<open>\<^verbatim>\<open>MySet\<close> against the native \<^verbatim>\<open>Set\<close>\<close>

text \<open>
  Under keys that differ from member to member, a \<^verbatim>\<open>MySet\<close> behaves as the list of
  its members.
\<close>

lemma map_of_keyed:
  assumes "inj_on k (insert x (set xs))"
  shows "map_of (map (\<lambda>r. (k r, r)) xs) (k x) = (if x \<in> set xs then Some x else None)"
  using assms
proof (induction xs)
  case Nil
  then show ?case by simp
next
  case (Cons a xs)
  from Cons.prems have "inj_on k (insert x (set xs))"
    by (rule inj_on_subset) auto
  from Cons.IH [OF this] Cons.prems show ?case
    by (auto simp: inj_on_def)
qed

lemma MySet_has_keyed:
  "inj_on k (insert x (set xs)) \<Longrightarrow> MySet_has k (keyed k xs) x \<longleftrightarrow> x \<in> set xs"
  by (simp add: MySet_has_def MySet_get_def keyed_def map_of_keyed)

lemma update_keyed:
  assumes "inj_on k (insert x (set xs))"
  shows "AList.update (k x) x (map (\<lambda>r. (k r, r)) xs) = map (\<lambda>r. (k r, r)) (Set_add xs x)"
  using assms
proof (induction xs)
  case Nil
  then show ?case by (simp add: Set_add_def)
next
  case (Cons a xs)
  from Cons.prems have inj: "inj_on k (insert x (set xs))"
    by (rule inj_on_subset) auto
  show ?case
  proof (cases "a = x")
    case True
    then show ?thesis by (simp add: Set_add_def)
  next
    case False
    with Cons.prems have "k a \<noteq> k x" by (auto simp: inj_on_def)
    with False Cons.IH [OF inj] show ?thesis by (auto simp: Set_add_def)
  qed
qed

lemma delete_keyed:
  assumes "inj_on k (insert x (set xs))"
  shows "AList.delete (k x) (map (\<lambda>r. (k r, r)) xs) = map (\<lambda>r. (k r, r)) (Set_delete xs x)"
  using assms
proof (induction xs)
  case Nil
  then show ?case by (simp add: Set_delete_def)
next
  case (Cons a xs)
  from Cons.prems have inj: "inj_on k (insert x (set xs))"
    by (rule inj_on_subset) auto
  show ?case
  proof (cases "a = x")
    case True
    with Cons.IH [OF inj] show ?thesis by (simp add: Set_delete_def)
  next
    case False
    with Cons.prems have "k a \<noteq> k x" by (auto simp: inj_on_def)
    with False Cons.IH [OF inj] show ?thesis by (simp add: Set_delete_def)
  qed
qed

lemma MySet_add_keyed:
  assumes "inj_on k (insert x (set xs))"
  shows "MySet_add k (keyed k xs) x = keyed k (Set_add xs x)"
proof -
  have "MySet_has k (keyed k xs) x \<longleftrightarrow> x \<in> set xs" using assms by (rule MySet_has_keyed)
  moreover have "set_record (keyed k xs) = map (\<lambda>r. (k r, r)) xs" by (simp add: keyed_def)
  ultimately show ?thesis
    using update_keyed [OF assms]
    by (simp add: MySet_add_def keyed_def) (simp add: Set_add_def)
qed

lemma MySet_delete_keyed:
  assumes "inj_on k (insert x (set xs))" "distinct xs"
  shows "MySet_delete k (keyed k xs) x = keyed k (Set_delete xs x)"
proof -
  have "MySet_has k (keyed k xs) x \<longleftrightarrow> x \<in> set xs" using assms(1) by (rule MySet_has_keyed)
  moreover have "set_record (keyed k xs) = map (\<lambda>r. (k r, r)) xs" by (simp add: keyed_def)
  moreover have "int (length (Set_delete xs x)) = int (length xs) - 1" if "x \<in> set xs"
    using that assms(2) by (simp add: Set_delete_def distinct_remove1_removeAll [symmetric] length_remove1)
       (cases xs; simp)
  moreover have "Set_delete xs x = xs" if "x \<notin> set xs"
    using that by (simp add: Set_delete_def)
  ultimately show ?thesis
    using delete_keyed [OF assms(1)]
    by (simp add: MySet_delete_def keyed_def)
qed

lemma MySet_values_keyed: "MySet_values (keyed k xs) = xs"
  by (simp add: MySet_values_def keyed_def comp_def)

lemma MySet_new_empty: "MySet_new k [] = keyed k []"
  by (simp add: MySet_new_def keyed_def)

lemma MySet_new_single: "MySet_new k [x] = keyed k [x]"
  by (simp add: MySet_new_def keyed_def)

subsection \<open>\<^verbatim>\<open>MyWeakMap\<close> on the store\<close>

lemma props_MyWeakMap_set:
  "props (MyWeakMap_set w r v h r') w' = (if r' = r \<and> w' = w then Some v else props (h r') w')"
  by (simp add: MyWeakMap_set_def)

lemma same_fields_MyWeakMap_set:
  "same_fields (MyWeakMap_set w r v h r') d \<longleftrightarrow> same_fields (h r') d"
  by (simp add: MyWeakMap_set_def same_fields_def)

lemma MyWeakMap_set_other: "r' \<noteq> r \<Longrightarrow> MyWeakMap_set w r v h r' = h r'"
  by (simp add: MyWeakMap_set_def)

subsection \<open>One visit in both variants\<close>

lemma same_fields_uid: "same_fields c d \<Longrightarrow> uid c = uid d"
  by (simp add: same_fields_def)

lemma same_fields_cost:
  "same_fields a a' \<Longrightarrow> same_fields b b' \<Longrightarrow> cost a b = cost a' b'"
  by (simp add: same_fields_def cost_def)

lemma sim_key: "sim h0 hi maze gS fS s1 s0 \<Longrightarrow> (\<lambda>u. uid (cells s1 u)) = (\<lambda>r. uid (h0 r))"
  by (rule ext) (simp add: sim_def same_fields_uid)

lemma wf_uid_inj_on:
  assumes "maze_wf u h maze" "A \<subseteq> maze_cells maze"
  shows "inj_on (\<lambda>r. uid (h r)) A"
  using assms by (auto simp: inj_on_def intro: wf_uid_inj)

lemma sim_mapGet:
  "sim h0 hi maze gS fS s1 s0 \<Longrightarrow> r \<in> maze_cells maze
   \<Longrightarrow> mapGet gS (cells s1) r = mapGet_native (gScore_native s0) r"
  by (simp add: sim_def mapGet_def mapGet_native_def MyWeakMap_has_def MyWeakMap_get_def)

lemma visit_sim:
  assumes wf: "maze_wf u h0 maze" and sim: "sim h0 hi maze gS fS s1 s0"
    and c: "c \<in> maze_cells maze" and n: "n \<in> maze_cells maze"
  shows "sim h0 hi maze gS fS (visit_neighbor gS fS t c n s1) (visit_neighbor_native h0 t c n s0)"
proof -
  define k where "k = (\<lambda>r. uid (h0 r))"
  have kk: "(\<lambda>u. uid (cells s1 u)) = k" using sim unfolding k_def by (rule sim_key)
  from sim have op: "openSet s1 = keyed k (openSet_native s0)"
    and cl: "closedSet s1 = keyed k (closedSet_native s0)"
    and ops: "set (openSet_native s0) \<subseteq> maze_cells maze"
    and cls: "set (closedSet_native s0) \<subseteq> maze_cells maze"
    and sf: "\<And>r. same_fields (cells s1 r) (h0 r)"
    and gf: "gS \<noteq> fS"
    by (simp_all add: sim_def k_def)
  have inj_cl: "inj_on k (insert n (set (closedSet_native s0)))"
    unfolding k_def using wf cls n by (intro wf_uid_inj_on) auto
  have inj_op: "inj_on k (insert n (set (openSet_native s0)))"
    unfolding k_def using wf ops n by (intro wf_uid_inj_on) auto
  have has: "MySet_has k (closedSet s1) n \<longleftrightarrow> n \<in> set (closedSet_native s0)"
    unfolding cl using inj_cl by (rule MySet_has_keyed)
  have add: "MySet_add k (openSet s1) n = keyed k (Set_add (openSet_native s0) n)"
    unfolding op using inj_op by (rule MySet_add_keyed)
  have mg_c: "mapGet gS (cells s1) c = mapGet_native (gScore_native s0) c"
    using sim c by (rule sim_mapGet)
  have mg_n: "mapGet gS (cells s1) n = mapGet_native (gScore_native s0) n"
    using sim n by (rule sim_mapGet)
  have cost_cn: "cost (cells s1 c) (cells s1 n) = cost (h0 c) (h0 n)"
    by (rule same_fields_cost [OF sf sf])
  have uid_n: "uid (cells s1 n) = uid (h0 n)" using sf by (rule same_fields_uid)
  show ?thesis
  proof (cases "n \<in> set (closedSet_native s0)")
    case True
    then have "visit_neighbor gS fS t c n s1 = s1"
      by (simp add: visit_neighbor_def kk has)
    moreover from True have "visit_neighbor_native h0 t c n s0 = s0" by (rule visit_closed)
    ultimately show ?thesis using sim by simp
  next
    case False
    define T where "T = num_add (mapGet_native (gScore_native s0) c) (cost (h0 c) (h0 n))"
    show ?thesis
    proof (cases "num_ge T (mapGet_native (gScore_native s0) n)")
      case True
      with False have v1: "visit_neighbor gS fS t c n s1
          = s1\<lparr>openSet := keyed k (Set_add (openSet_native s0) n)\<rparr>"
        by (simp add: visit_neighbor_def kk has add Let_def mg_c mg_n cost_cn T_def)
      from True False have v0: "visit_neighbor_native h0 t c n s0
          = s0\<lparr>openSet_native := Set_add (openSet_native s0) n\<rparr>"
        by (simp add: visit_neighbor_native_def Let_def T_def)
      from sim n show ?thesis unfolding v1 v0 sim_def k_def by simp
    next
      case ge: False
      define F where "F = num_add T (cost (h0 n) (h0 t))"
      have cost_nt: "cost (MyWeakMap_set gS n T (cells s1) n) (MyWeakMap_set gS n T (cells s1) t)
          = cost (h0 n) (h0 t)"
        by (rule same_fields_cost) (simp_all add: same_fields_MyWeakMap_set sf)
      from ge False have v1: "visit_neighbor gS fS t c n s1
          = s1\<lparr>openSet := keyed k (Set_add (openSet_native s0) n),
               cameFrom := (cameFrom s1)(uid (h0 n) \<mapsto> c),
               cells := MyWeakMap_set fS n F (MyWeakMap_set gS n T (cells s1))\<rparr>"
        by (simp add: visit_neighbor_def kk has add Let_def mg_c mg_n cost_cn T_def [symmetric]
            uid_n cost_nt F_def)
           (simp add: MyWeakMap_get_def props_MyWeakMap_set ToNumber_def)
      from ge False have v0: "visit_neighbor_native h0 t c n s0
          = s0\<lparr>openSet_native := Set_add (openSet_native s0) n,
               cameFrom_native := (cameFrom_native s0)(getId (h0 n) \<mapsto> c),
               gScore_native := (gScore_native s0)(n \<mapsto> T),
               fScore_native := (fScore_native s0)(n \<mapsto> F)\<rparr>"
        by (simp add: visit_neighbor_native_def Let_def T_def [symmetric] F_def ToNumber_def)
      have from_eq: "((cameFrom s1)(uid (h0 n) \<mapsto> c)) (uid (h0 r))
          = ((cameFrom_native s0)(getId (h0 n) \<mapsto> c)) (getId (h0 r))"
        if r: "r \<in> maze_cells maze" for r
      proof (cases "r = n")
        case True
        then show ?thesis by simp
      next
        case False
        with wf r n have "uid (h0 r) \<noteq> uid (h0 n)" "getId (h0 r) \<noteq> getId (h0 n)"
          by (metis wf_uid_inj, metis wf_getId_inj)
        with sim r show ?thesis by (simp add: sim_def)
      qed
      have out: "MyWeakMap_set fS n F (MyWeakMap_set gS n T (cells s1)) r = hi r"
        if "r \<notin> maze_cells maze" for r
      proof -
        from that n have "r \<noteq> n" by blast
        with sim that show ?thesis by (simp add: MyWeakMap_set_other sim_def)
      qed
      from sim n c gf from_eq out show ?thesis
        unfolding v1 v0 sim_def k_def
        by (simp add: same_fields_MyWeakMap_set props_MyWeakMap_set)
    qed
  qed
qed

subsection \<open>The loops in both variants\<close>

lemma bp_None: "buildPath_loop h frm None acc = Some acc"
  by (subst buildPath_loop.simps) simp

lemma bp_Some:
  "buildPath_loop h frm (Some r) acc =
     buildPath_loop h frm (frm (uid (h r)))
       (case frm (uid (h r)) of Some p \<Rightarrow> acc @ [p] | None \<Rightarrow> acc)"
  by (subst buildPath_loop.simps) (simp add: Let_def)

lemma bpn_Some:
  "buildPath_native_loop h frm (Some r) acc =
     buildPath_native_loop h frm (frm (getId (h r)))
       (case frm (getId (h r)) of Some p \<Rightarrow> acc @ [p] | None \<Rightarrow> acc)"
  by (subst buildPath_native_loop.simps) (simp add: Let_def)

lemma buildPath_loop_sim:
  assumes "buildPath_native_loop h0 f0 uo acc = Some y"
    and "\<forall>r \<in> maze_cells maze. f1 (uid (h1 r)) = f0 (getId (h0 r))"
    and "\<forall>k p. f0 k = Some p \<longrightarrow> p \<in> maze_cells maze"
    and "\<forall>r. uo = Some r \<longrightarrow> r \<in> maze_cells maze"
  shows "buildPath_loop h1 f1 uo acc = Some y"
  using assms
proof (induction h0 f0 uo acc y rule: buildPath_native_loop.raw_induct)
  case (1 loop h0 f0 uo acc y)
  show ?case
  proof (cases uo)
    case None
    with "1.hyps" show ?thesis by (simp add: bp_None)
  next
    case (Some r)
    with "1.prems" have r: "r \<in> maze_cells maze" by simp
    with "1.prems" have e: "f1 (uid (h1 r)) = f0 (getId (h0 r))" by simp
    show ?thesis
    proof (cases "f0 (getId (h0 r))")
      case None
      with Some "1.hyps" have a: "loop h0 f0 None acc = Some y" by simp
      from None \<open>uo = Some r\<close> "1.prems"(1)
      have b: "buildPath_native_loop h0 f0 None acc = Some y" by (simp add: bpn_Some)
      have "buildPath_loop h1 f1 None acc = Some y"
        by (rule "1.IH" [OF a b "1.prems"(2) "1.prems"(3)]) simp
      with None e \<open>uo = Some r\<close> show ?thesis by (simp add: bp_Some)
    next
      case (Some p)
      with \<open>uo = Some r\<close> "1.hyps" have a: "loop h0 f0 (Some p) (acc @ [p]) = Some y" by simp
      from Some \<open>uo = Some r\<close> "1.prems"(1)
      have b: "buildPath_native_loop h0 f0 (Some p) (acc @ [p]) = Some y" by (simp add: bpn_Some)
      from Some "1.prems"(3) have p: "p \<in> maze_cells maze" by blast
      have "buildPath_loop h1 f1 (Some p) (acc @ [p]) = Some y"
        by (rule "1.IH" [OF a b "1.prems"(2) "1.prems"(3)]) (simp add: p)
      with Some e \<open>uo = Some r\<close> show ?thesis by (simp add: bp_Some)
    qed
  qed
qed (rule assms(1))

lemma pick_current_cong:
  "(\<forall>r \<in> insert c (set xs). f r = g r) \<Longrightarrow> pick_current f xs c = pick_current g xs c"
proof (induction xs arbitrary: c)
  case Nil
  then show ?case by (simp add: pick_current_def)
next
  case (Cons x xs)
  let ?c' = "if num_lt (ToNumber (f x)) (ToNumber (f c)) then x else c"
  from Cons.prems have "\<forall>r \<in> insert ?c' (set xs). f r = g r" by auto
  from Cons.IH [OF this] Cons.prems show ?case by (simp add: pick_current_def)
qed

lemma neighbors_same_fields:
  assumes "\<And>r. same_fields (h1 r) (h0 r)"
  shows "neighbors h1 maze i j = neighbors h0 maze i j"
proof -
  have "isBlock (h1 r) = isBlock (h0 r)" for r using assms [of r] by (simp add: same_fields_def)
  then show ?thesis by (simp add: neighbors_def)
qed

lemma visit_fold_sim:
  assumes wf: "maze_wf u h0 maze" and c: "c \<in> maze_cells maze"
  shows "sim h0 hi maze gS fS s1 s0 \<Longrightarrow> set ns \<subseteq> maze_cells maze \<Longrightarrow>
     sim h0 hi maze gS fS (fold (visit_neighbor gS fS t c) ns s1)
       (fold (visit_neighbor_native h0 t c) ns s0)"
proof (induction ns arbitrary: s1 s0)
  case Nil
  then show ?case by simp
next
  case (Cons n ns)
  from Cons.prems have n: "n \<in> maze_cells maze" and ns: "set ns \<subseteq> maze_cells maze" by simp_all
  from visit_sim [OF wf Cons.prems(1) c n]
  have "sim h0 hi maze gS fS (visit_neighbor gS fS t c n s1) (visit_neighbor_native h0 t c n s0)" .
  from Cons.IH [OF this ns] show ?case by simp
qed

lemma same_fields_coords:
  "same_fields c d \<Longrightarrow> ui c = ui d \<and> uj c = uj d"
  by (simp add: same_fields_def)

lemma close_sim:
  assumes wf: "maze_wf u h0 maze" and sim: "sim h0 hi maze gS fS s1 s0"
    and c: "c \<in> maze_cells maze"
  shows "sim h0 hi maze gS fS
     (s1\<lparr>openSet := MySet_delete (\<lambda>u. uid (cells s1 u)) (openSet s1) c,
         closedSet := MySet_add (\<lambda>u. uid (cells s1 u)) (closedSet s1) c\<rparr>)
     (s0\<lparr>openSet_native := Set_delete (openSet_native s0) c,
         closedSet_native := Set_add (closedSet_native s0) c\<rparr>)"
proof -
  define k where "k = (\<lambda>r. uid (h0 r))"
  have kk: "(\<lambda>u. uid (cells s1 u)) = k" using sim unfolding k_def by (rule sim_key)
  from sim have op: "openSet s1 = keyed k (openSet_native s0)"
    and cl: "closedSet s1 = keyed k (closedSet_native s0)"
    and ops: "set (openSet_native s0) \<subseteq> maze_cells maze"
    and cls: "set (closedSet_native s0) \<subseteq> maze_cells maze"
    and d: "distinct (openSet_native s0)"
    by (simp_all add: sim_def k_def)
  have inj_cl: "inj_on k (insert c (set (closedSet_native s0)))"
    unfolding k_def using wf cls c by (intro wf_uid_inj_on) auto
  have inj_op: "inj_on k (insert c (set (openSet_native s0)))"
    unfolding k_def using wf ops c by (intro wf_uid_inj_on) auto
  have del: "MySet_delete k (openSet s1) c = keyed k (Set_delete (openSet_native s0) c)"
    unfolding op using inj_op d by (rule MySet_delete_keyed)
  have add: "MySet_add k (closedSet s1) c = keyed k (Set_add (closedSet_native s0) c)"
    unfolding cl using inj_cl by (rule MySet_add_keyed)
  from sim c ops cls d show ?thesis
    unfolding kk del add unfolding sim_def k_def by auto
qed

lemma getPath_loop_sim:
  assumes wf: "maze_wf u h0 maze" and t: "t \<in> maze_cells maze"
  shows "search_inv h0 maze start t cur UNIV s0 \<Longrightarrow> sim h0 hi maze gS fS s1 s0 \<Longrightarrow>
     \<exists>s1' s0' cur' path. getPath_native_loop h0 maze t s0 = Some path \<and>
        getPath_loop maze t gS fS s1 = Some (s1', Inr path) \<and>
        (\<forall>k. card (maze_cells maze) - length (closedSet_native s0) \<le> k \<longrightarrow>
           getPath_rounds k maze t gS fS s1 = Some (s1', Inr path)) \<and>
        sim h0 hi maze gS fS s1' s0' \<and>
        search_inv h0 maze start t cur' UNIV s0' \<and>
        search_result h0 maze start t s0' path"
proof (induction "card (maze_cells maze) - length (closedSet_native s0)"
    arbitrary: s0 s1 cur rule: less_induct)
  case less
  note inv = less.prems(1) and sim = less.prems(2)
  from inv have lnk: "inv_link h0 maze s0" and chn: "inv_chain h0 s0"
    and tg: "t \<notin> set (closedSet_native s0)"
    by (simp_all add: search_inv_def)
  have pos: "0 < card (maze_cells maze) - length (closedSet_native s0)"
  proof -
    from inv have d: "distinct (closedSet_native s0)"
      and sub: "set (closedSet_native s0) \<subseteq> maze_cells maze"
      by (simp_all add: search_inv_def inv_struct_def)
    have fin: "finite (maze_cells maze)" by (simp add: maze_cells_def)
    from sub tg have "set (closedSet_native s0) \<subseteq> maze_cells maze - {t}" by blast
    with fin have "card (set (closedSet_native s0)) \<le> card (maze_cells maze - {t})"
      by (intro card_mono) simp_all
    moreover from fin t have "card (maze_cells maze - {t}) < card (maze_cells maze)"
      by (intro card_Diff1_less) simp_all
    ultimately show ?thesis using d by (simp add: distinct_card)
  qed
  have fuel: "\<exists>k'. k = Suc k'"
    if "card (maze_cells maze) - length (closedSet_native s0) \<le> k" for k
    using that pos by (cases k) simp_all
  from sim have op: "openSet s1 = keyed (\<lambda>r. uid (h0 r)) (openSet_native s0)"
    and ops: "set (openSet_native s0) \<subseteq> maze_cells maze"
    and sf: "\<And>r. same_fields (cells s1 r) (h0 r)"
    and fsc: "\<forall>r \<in> maze_cells maze. props (cells s1 r) fS = fScore_native s0 r"
    by (simp_all add: sim_def)
  have vals: "MySet_values (openSet s1) = openSet_native s0"
    unfolding op by (rule MySet_values_keyed)
  have size: "set_size (openSet s1) = int (length (openSet_native s0))"
    unfolding op by (simp add: keyed_def)
  show ?case
  proof (cases "openSet_native s0")
    case Nil
    then have "getPath_native_loop h0 maze t s0 = Some []" by (rule native_loop_Nil)
    moreover from Nil size have "getPath_loop maze t gS fS s1 = Some (s1, Inr [])"
      by (subst getPath_loop.simps) simp
    moreover have "getPath_rounds k maze t gS fS s1 = Some (s1, Inr [])"
      if "card (maze_cells maze) - length (closedSet_native s0) \<le> k" for k
    proof -
      from fuel [OF that] obtain k' where "k = Suc k'" by blast
      with Nil size show ?thesis by simp
    qed
    moreover have "search_result h0 maze start t s0 []"
      using closed_walk [OF inv Nil] tg by (auto simp: search_result_def)
    ultimately show ?thesis using sim inv by blast
  next
    case (Cons first rest)
    define c where "c = pick_current (fScore_native s0) (first # rest) first"
    from pick_current_mem [of "fScore_native s0" "first # rest" first] Cons
    have cin: "c \<in> set (openSet_native s0)" by (simp add: c_def)
    with ops have ccell: "c \<in> maze_cells maze" by blast
    have "\<forall>r \<in> insert first (set (first # rest)).
        MyWeakMap_get fS (cells s1) r = fScore_native s0 r"
      using fsc ops Cons by (auto simp: MyWeakMap_get_def)
    then have pick: "pick_current (MyWeakMap_get fS (cells s1)) (first # rest) first = c"
      unfolding c_def by (rule pick_current_cong)
    have coords: "ui (cells s1 c) = ui (h0 c)" "uj (cells s1 c) = uj (h0 c)"
      "ui (cells s1 t) = ui (h0 t)" "uj (cells s1 t) = uj (h0 t)"
      using same_fields_coords [OF sf] by simp_all
    have size0: "set_size (openSet s1) \<noteq> 0" using size Cons by simp
    show ?thesis
    proof (cases "ui (h0 c) = ui (h0 t) \<and> uj (h0 c) = uj (h0 t)")
      case True
      with wf ccell t have ct: "c = t" by (simp add: wf_coords_inj)
      from Cons c_def True
      have run0: "getPath_native_loop h0 maze t s0 = buildPath_native h0 (cameFrom_native s0) c"
        by (rule native_loop_return)
      from visited_chain [OF lnk chn ccell] obtain q
        where q: "links h0 (cameFrom_native s0) c q" by blast
      from links_buildPath [OF q, of "[c]"]
      have b0: "buildPath_native_loop h0 (cameFrom_native s0) (Some c) [c] = Some (c # q)"
        by simp
      with run0 have path: "getPath_native_loop h0 maze t s0 = Some (c # q)"
        by (simp add: buildPath_native_def)
      note b0
      moreover have "\<forall>r \<in> maze_cells maze.
          cameFrom s1 (uid (cells s1 r)) = cameFrom_native s0 (getId (h0 r))"
        using sim same_fields_uid [OF sf] by (simp add: sim_def)
      moreover have "\<forall>k p. cameFrom_native s0 k = Some p \<longrightarrow> p \<in> maze_cells maze"
        using sim by (simp add: sim_def)
      moreover have "\<forall>r. Some c = Some r \<longrightarrow> r \<in> maze_cells maze" using ccell by simp
      ultimately have "buildPath_loop (cells s1) (cameFrom s1) (Some c) [c] = Some (c # q)"
        by (rule buildPath_loop_sim)
      then have b1: "buildPath (cells s1) (cameFrom s1) c = Some (c # q)"
        by (simp add: buildPath_def)
      from True size0 have "getPath_loop maze t gS fS s1 = Some (s1, Inr (c # q))"
        by (subst getPath_loop.simps) (simp add: vals Cons pick Let_def coords b1)
      moreover have "getPath_rounds k maze t gS fS s1 = Some (s1, Inr (c # q))"
        if "card (maze_cells maze) - length (closedSet_native s0) \<le> k" for k
      proof -
        from fuel [OF that] obtain k' where "k = Suc k'" by blast
        with True size0 show ?thesis by (simp add: vals Cons pick Let_def coords b1)
      qed
      moreover have "search_result h0 maze start t s0 (c # q)"
        using q cin ct by (auto simp: search_result_def visited_def)
      ultimately show ?thesis using path sim inv by blast
    next
      case False
      then have ct: "c \<noteq> t" by auto
      from Cons c_def False
      have run0: "getPath_native_loop h0 maze t s0
          = getPath_native_loop h0 maze t (native_next h0 maze t s0 c)"
        by (rule native_loop_step)
      from native_next_search_inv [OF wf inv Cons c_def ct]
      have inv': "search_inv h0 maze start t c UNIV (native_next h0 maze t s0 c)"
        and dec: "card (maze_cells maze) - length (closedSet_native (native_next h0 maze t s0 c))
          < card (maze_cells maze) - length (closedSet_native s0)"
        by blast+
      define s2 where "s2 = s1\<lparr>openSet := MySet_delete (\<lambda>u. uid (cells s1 u)) (openSet s1) c,
         closedSet := MySet_add (\<lambda>u. uid (cells s1 u)) (closedSet s1) c\<rparr>"
      define s3 where "s3 = fold (visit_neighbor gS fS t c)
          (neighbors h0 maze (ui (h0 c)) (uj (h0 c))) s2"
      have sim2: "sim h0 hi maze gS fS s2
         (s0\<lparr>openSet_native := Set_delete (openSet_native s0) c,
             closedSet_native := Set_add (closedSet_native s0) c\<rparr>)"
        unfolding s2_def using wf sim ccell by (rule close_sim)
      have nsub: "set (neighbors h0 maze (ui (h0 c)) (uj (h0 c))) \<subseteq> maze_cells maze"
        using wf_step_cells [OF wf] by (auto simp: step_def)
      have sim3: "sim h0 hi maze gS fS s3 (native_next h0 maze t s0 c)"
        unfolding s3_def native_next_def
        using wf ccell sim2 nsub by (rule visit_fold_sim)
      have cells2: "cells s2 = cells s1" by (simp add: s2_def)
      have nb: "neighbors (cells s1) maze (ui (h0 c)) (uj (h0 c))
          = neighbors h0 maze (ui (h0 c)) (uj (h0 c))"
        using sf by (rule neighbors_same_fields)
      from False size0 have run1: "getPath_loop maze t gS fS s1 = getPath_loop maze t gS fS s3"
        by (subst getPath_loop.simps)
           (auto simp add: vals Cons pick Let_def coords s3_def s2_def nb)
      from False size0
      have run2: "getPath_rounds (Suc k) maze t gS fS s1 = getPath_rounds k maze t gS fS s3" for k
        by (auto simp add: vals Cons pick Let_def coords s3_def s2_def nb)
      from less.hyps [OF dec inv' sim3] obtain s1' s0' cur' path where
        r0: "getPath_native_loop h0 maze t (native_next h0 maze t s0 c) = Some path"
        and r1: "getPath_loop maze t gS fS s3 = Some (s1', Inr path)"
        and r2: "\<And>k. card (maze_cells maze)
              - length (closedSet_native (native_next h0 maze t s0 c)) \<le> k \<Longrightarrow>
            getPath_rounds k maze t gS fS s3 = Some (s1', Inr path)"
        and r3: "sim h0 hi maze gS fS s1' s0'"
        and r4: "search_inv h0 maze start t cur' UNIV s0'"
        and r5: "search_result h0 maze start t s0' path"
        by blast
      have "getPath_rounds k maze t gS fS s1 = Some (s1', Inr path)"
        if "card (maze_cells maze) - length (closedSet_native s0) \<le> k" for k
      proof -
        from fuel [OF that] obtain k' where k: "k = Suc k'" by blast
        with that dec have "card (maze_cells maze)
            - length (closedSet_native (native_next h0 maze t s0 c)) \<le> k'" by simp
        from r2 [OF this] show ?thesis unfolding k run2 .
      qed
      with r0 r1 r3 r4 r5 run0 run1 show ?thesis by auto
    qed
  qed
qed

subsection \<open>The whole call\<close>

text \<open>
  The call with \<^verbatim>\<open>MySet\<close> and \<^verbatim>\<open>MyWeakMap\<close> returns what the native search returns on
  any store with the same declared fields, and leaves a store that differs from the one
  it started from in the two properties of its score maps only.
\<close>

lemma weakmap_ids_differ:
  "''weakmap'' @ string_of_nat n \<noteq> ''weakmap'' @ string_of_nat (Suc n)"
  by (auto dest: string_of_nat_inj)

lemma props_ok_fresh:
  assumes "props_ok h maze n" "r \<in> maze_cells maze" "n \<le> m"
  shows "props (h r) (''weakmap'' @ string_of_nat m) = None"
proof (rule ccontr)
  assume "props (h r) (''weakmap'' @ string_of_nat m) \<noteq> None"
  with assms(1,2) obtain k where "k < n" "''weakmap'' @ string_of_nat m = ''weakmap'' @ string_of_nat k"
    unfolding props_ok_def by blast
  then have "m = k" by (auto dest: string_of_nat_inj)
  with \<open>k < n\<close> assms(3) show False by simp
qed

lemma getPath_unfold:
  "getPath maze startPoint targetPoint (h, n) =
     map_option (\<lambda>r. (snd r, cells (fst r), Suc (Suc n)))
       (getPath_loop maze targetPoint (''weakmap'' @ string_of_nat n)
          (''weakmap'' @ string_of_nat (Suc n)) (init_search h n startPoint targetPoint))"
proof -
  have "cost (MyWeakMap_set w startPoint v h startPoint) (MyWeakMap_set w startPoint v h targetPoint)
      = cost (h startPoint) (h targetPoint)" for w v
    by (simp add: MyWeakMap_set_def cost_def)
  then show ?thesis
    by (simp add: getPath_def Let_def MyWeakMap_new_def init_search_def MySet_new_empty
        MySet_new_single)
qed

lemma getPath_within_unfold:
  "getPath_within k maze startPoint targetPoint (h, n) =
     map_option (\<lambda>r. (snd r, cells (fst r), Suc (Suc n)))
       (getPath_rounds k maze targetPoint (''weakmap'' @ string_of_nat n)
          (''weakmap'' @ string_of_nat (Suc n)) (init_search h n startPoint targetPoint))"
proof -
  have "cost (MyWeakMap_set w startPoint v h startPoint) (MyWeakMap_set w startPoint v h targetPoint)
      = cost (h startPoint) (h targetPoint)" for w v
    by (simp add: MyWeakMap_set_def cost_def)
  then show ?thesis
    by (simp add: getPath_within_def Let_def MyWeakMap_new_def init_search_def MySet_new_empty
        MySet_new_single)
qed

lemma init_sim:
  assumes wf: "maze_wf u h0 maze" and sf: "\<And>r. same_fields (h r) (h0 r)"
    and pk: "props_ok h maze n" and start: "start \<in> maze_cells maze"
  shows "sim h0 h maze (''weakmap'' @ string_of_nat n) (''weakmap'' @ string_of_nat (Suc n))
     (init_search h n start t)
     \<lparr>openSet_native = [start], closedSet_native = [],
      cameFrom_native = Map.empty,
      gScore_native = [start \<mapsto> Num 0],
      fScore_native = [start \<mapsto> cost (h0 start) (h0 t)]\<rparr>"
proof -
  have k: "(\<lambda>u. uid (h u)) = (\<lambda>r. uid (h0 r))"
    by (rule ext) (rule same_fields_uid [OF sf])
  have c: "cost (h start) (h t) = cost (h0 start) (h0 t)"
    by (rule same_fields_cost [OF sf sf])
  have fresh: "props (h r) (''weakmap'' @ string_of_nat n) = None"
    "props (h r) (''weakmap'' @ string_of_nat (Suc n)) = None" if "r \<in> maze_cells maze" for r
    using props_ok_fresh [OF pk that] by simp_all
  have out: "cells (init_search h n start t) r = h r" if "r \<notin> maze_cells maze" for r
  proof -
    from that start have "r \<noteq> start" by blast
    then show ?thesis by (simp add: init_search_def MyWeakMap_set_other)
  qed
  from start fresh weakmap_ids_differ [of n] out sf show ?thesis
    unfolding sim_def
    by (simp add: init_search_def k c same_fields_MyWeakMap_set props_MyWeakMap_set)
qed

lemma same_fields_sym: "same_fields a b \<Longrightarrow> same_fields b a"
  by (simp add: same_fields_def)

lemma same_fields_trans: "same_fields a b \<Longrightarrow> same_fields b c \<Longrightarrow> same_fields a c"
  by (simp add: same_fields_def)

lemma getPath_refines:
  assumes wf: "maze_wf u h0 maze" and sf: "\<And>r. same_fields (h r) (h0 r)"
    and pk: "props_ok h maze n" and start: "start \<in> maze_cells maze"
    and t: "t \<in> maze_cells maze"
  shows "\<exists>path h' s0 cur. getPath_native h0 maze start t = Some path \<and>
     getPath maze start t (h, n) = Some (Inr path, h', Suc (Suc n)) \<and>
     (\<forall>k. card (maze_cells maze) \<le> k \<longrightarrow>
        getPath_within k maze start t (h, n) = Some (Inr path, h', Suc (Suc n))) \<and>
     frame maze n h h' \<and> props_ok h' maze (Suc (Suc n)) \<and>
     search_inv h0 maze start t cur UNIV s0 \<and> search_result h0 maze start t s0 path \<and>
     (\<forall>r \<in> maze_cells maze.
        props (h' r) (''weakmap'' @ string_of_nat n) = gScore_native s0 r \<and>
        props (h' r) (''weakmap'' @ string_of_nat (Suc n)) = fScore_native s0 r)"
proof -
  let ?g = "''weakmap'' @ string_of_nat n" and ?f = "''weakmap'' @ string_of_nat (Suc n)"
  from getPath_loop_sim [OF wf t init_search_inv [OF start] init_sim [OF wf sf pk start]]
  obtain s1' s0' cur' path where
    n0: "getPath_native h0 maze start t = Some path"
    and l1: "getPath_loop maze t ?g ?f (init_search h n start t) = Some (s1', Inr path)"
    and l2: "\<And>k. card (maze_cells maze) \<le> k \<Longrightarrow>
        getPath_rounds k maze t ?g ?f (init_search h n start t) = Some (s1', Inr path)"
    and sim': "sim h0 h maze ?g ?f s1' s0'"
    and inv': "search_inv h0 maze start t cur' UNIV s0'"
    and res': "search_result h0 maze start t s0' path"
    unfolding getPath_native_def by auto
  from l2 have g2: "\<forall>k. card (maze_cells maze) \<le> k \<longrightarrow>
      getPath_within k maze start t (h, n) = Some (Inr path, cells s1', Suc (Suc n))"
    by (simp add: getPath_within_unfold)
  from l1 have g1: "getPath maze start t (h, n) = Some (Inr path, cells s1', Suc (Suc n))"
    by (simp add: getPath_unfold)
  from sim' have a: "\<And>r. same_fields (cells s1' r) (h0 r)"
    and b: "\<And>r k. k \<noteq> ?g \<Longrightarrow> k \<noteq> ?f \<Longrightarrow> props (cells s1' r) k = props (h r) k"
    and c: "\<And>r. r \<notin> maze_cells maze \<Longrightarrow> cells s1' r = h r"
    and sc: "\<forall>r \<in> maze_cells maze. props (cells s1' r) ?g = gScore_native s0' r
         \<and> props (cells s1' r) ?f = fScore_native s0' r"
    by (simp_all add: sim_def)
  have "same_fields (cells s1' r) (h r)" for r
    using a [of r] sf [of r] by (blast intro: same_fields_trans same_fields_sym)
  with b c have fr: "frame maze n h (cells s1')" by (simp add: frame_def)
  have pk': "props_ok (cells s1') maze (Suc (Suc n))"
    unfolding props_ok_def
  proof (intro ballI allI impI)
    fix r k assume r: "r \<in> maze_cells maze" and k: "props (cells s1' r) k \<noteq> None"
    show "\<exists>m < Suc (Suc n). k = ''weakmap'' @ string_of_nat m"
    proof (cases "k = ?g \<or> k = ?f")
      case True
      then show ?thesis
      proof
        assume "k = ?g"
        then show ?thesis by (intro exI [of _ n]) simp
      next
        assume "k = ?f"
        then show ?thesis by (intro exI [of _ "Suc n"]) simp
      qed
    next
      case False
      with b k have "props (h r) k \<noteq> None" by simp
      with pk r obtain m where "m < n" "k = ''weakmap'' @ string_of_nat m"
        unfolding props_ok_def by blast
      then show ?thesis by (intro exI [of _ m]) simp
    qed
  qed
  from n0 g1 g2 fr pk' inv' res' sc show ?thesis by blast
qed

subsection \<open>Mazes built by generateMaze\<close>

lemma maze_refs_nth:
  "a < x \<Longrightarrow> b < y \<Longrightarrow> maze_refs x y ! a ! b = a * y + b"
  by (simp add: maze_refs_def)

lemma maze_refs_length: "length (maze_refs x y) = x"
  by (simp add: maze_refs_def)

lemma maze_refs_row_length: "a < x \<Longrightarrow> length (maze_refs x y ! a) = y"
  by (simp add: maze_refs_def)

lemma maze_refs_wf:
  assumes "0 < u"
  shows "maze_wf u (maze_objects y u draw) (maze_refs x y)"
  unfolding maze_wf_def
proof (intro conjI allI impI)
  show "0 < u" by fact
next
  fix a b assume a: "a < length (maze_refs x y)" and b: "b < length (maze_refs x y ! a)"
  then have ax: "a < x" and "b < y" by (simp_all add: maze_refs_length maze_refs_row_length)
  then have "maze_refs x y ! a ! b = a * y + b" "(a * y + b) div y = a" "(a * y + b) mod y = b"
    by (simp_all add: maze_refs_nth)
  then show "unit_at u (maze_objects y u draw (maze_refs x y ! a ! b)) a b"
    by (simp add: maze_objects_def unit_at_def new_unit_def)
qed

lemma maze_refs_props_ok: "props_ok (maze_objects y u draw) maze n"
  by (simp add: props_ok_def maze_objects_def new_unit_def)

lemma maze_refs_rectangular: "rectangular (maze_refs x y)"
  unfolding rectangular_def list_all_iff
proof
  fix row assume "row \<in> set (maze_refs x y)"
  then obtain a where a: "a < x" "row = maze_refs x y ! a"
    unfolding in_set_conv_nth by (auto simp: maze_refs_length)
  then have "0 < x" by simp
  then have "maze_refs x y \<noteq> []" using maze_refs_length [of x y] by auto
  then have "hd (maze_refs x y) = maze_refs x y ! 0" by (rule hd_conv_nth)
  with a \<open>0 < x\<close> show "length row = length (hd (maze_refs x y))"
    by (simp add: maze_refs_row_length)
qed

lemma maze_refs_cells: "maze_cells (maze_refs x y) = {r. r < x * y}"
proof (intro set_eqI iffI)
  fix r assume "r \<in> maze_cells (maze_refs x y)"
  then obtain a b where "a < x" "b < y" "r = a * y + b"
    unfolding maze_cells_iff
    by (auto simp: maze_refs_length maze_refs_row_length maze_refs_nth)
  moreover from \<open>a < x\<close> have "Suc a * y \<le> x * y" by (intro mult_le_mono1) simp
  ultimately show "r \<in> {r. r < x * y}" by simp
next
  fix r assume "r \<in> {r. r < x * y}"
  then have r: "r < x * y" by simp
  then have y: "0 < y" by (cases y) simp_all
  then have "r div y < x" "r mod y < y" using r by (simp_all add: less_mult_imp_div_less)
  moreover have "r = (r div y) * y + r mod y" by simp
  ultimately show "r \<in> maze_cells (maze_refs x y)"
    unfolding maze_cells_iff
    by (metis maze_refs_length maze_refs_row_length maze_refs_nth)
qed

lemma generateMaze_wf:
  assumes "0 < u"
  shows "maze_wf u (fst (generateMaze w hgt u draw)) (snd (generateMaze w hgt u draw))"
  using maze_refs_wf [OF assms] by (simp add: generateMaze_def Let_def)

lemma generateMaze_props_ok: "props_ok (fst (generateMaze w hgt u draw)) maze n"
  by (simp add: generateMaze_def Let_def maze_refs_props_ok)

lemma generateMaze_rectangular: "rectangular (snd (generateMaze w hgt u draw))"
  by (simp add: generateMaze_def Let_def maze_refs_rectangular)

lemma generateMaze_cells:
  "maze_cells (snd (generateMaze w hgt u draw)) = {r. r < nat (w div u) * nat (hgt div u)}"
  by (simp add: generateMaze_def Let_def maze_refs_cells)

lemma generateMaze_isBlock:
  "isBlock (fst (generateMaze w hgt u draw) r)
     = draw (r div nat (hgt div u)) (r mod nat (hgt div u))"
  by (simp add: generateMaze_def Let_def maze_objects_def new_unit_def)

lemma generateMaze_coords:
  "ui (fst (generateMaze w hgt u draw) r) = int (r div nat (hgt div u))"
  "uj (fst (generateMaze w hgt u draw) r) = int (r mod nat (hgt div u))"
  by (simp_all add: generateMaze_def Let_def maze_objects_def new_unit_def)

subsection \<open>Paths and walks\<close>

lemma path_walk_aux:
  assumes wf: "maze_wf u h maze"
  shows "list_all (\<lambda>c. c \<in> maze_cells maze) p \<and>
         successively (\<lambda>c d. adjacent4 (h c) (h d)) p \<and>
         list_all (\<lambda>c. \<not> isBlock (h c)) (tl p)
     \<longleftrightarrow> p = [] \<or> (hd p \<in> maze_cells maze \<and> successively (step h maze) p)"
proof (induction p)
  case Nil
  then show ?case by simp
next
  case (Cons a p)
  show ?case
  proof (cases p)
    case Nil
    then show ?thesis by simp
  next
    case (Cons b p')
    with Cons.IH show ?thesis
      by (auto simp: wf_step_iff [OF wf])
  qed
qed

lemma maze_path_walk:
  assumes wf: "maze_wf u h maze" and a: "a \<in> maze_cells maze"
  shows "maze_path h maze a b p \<longleftrightarrow> walk h maze a b p"
  using path_walk_aux [OF wf, of p] a unfolding maze_path_def walk_def by auto

lemma walk_Cons:
  "step h maze a a' \<Longrightarrow> walk h maze a' b q \<Longrightarrow> walk h maze a b (a # q)"
  by (cases q) (simp_all add: walk_def)

lemma walk_lower_bound:
  assumes wf: "maze_wf u h maze" and a: "a \<in> maze_cells maze" and w: "walk h maze a b q"
  shows "\<bar>ui (h a) - ui (h b)\<bar> + \<bar>uj (h a) - uj (h b)\<bar> + 1 \<le> int (length q)"
proof -
  from walk_cells [OF wf a w] w have b: "b \<in> maze_cells maze"
    by (auto simp: walk_def)
  from w have q: "q \<noteq> []" "successively (step h maze) q" "hd q = a" "last q = b"
    by (simp_all add: walk_def)
  from heur_walk [OF wf q(1) q(2), of b] q(3) q(4) a
  have "heur h b a \<le> u * (int (length q) - 1) + heur h b b" by simp
  moreover have "heur h b b = 0" by (simp add: heur_def)
  ultimately have "u * (\<bar>ui (h a) - ui (h b)\<bar> + \<bar>uj (h a) - uj (h b)\<bar>) \<le> u * (int (length q) - 1)"
    using wf_heur [OF wf a b] by simp
  moreover have "0 < u" using wf by (rule wf_pos)
  ultimately have "\<bar>ui (h a) - ui (h b)\<bar> + \<bar>uj (h a) - uj (h b)\<bar> \<le> int (length q) - 1"
    by simp
  then show ?thesis by simp
qed

subsection \<open>Results in terms of paths\<close>

text \<open>
  What the returned sequence is, whatever the scores are: it is empty exactly when no
  path exists; otherwise it begins with the target and each of its cells is one move
  away from the next one. Every cell of it but the last has been given both scores, and
  the start keeps the scores it was given at the beginning.
\<close>

lemma search_result_facts:
  assumes wf: "maze_wf u h maze" and t: "t \<in> maze_cells maze"
    and inv: "search_inv h maze start t cur UNIV s"
    and res: "search_result h maze start t s path"
  shows "(path = [] \<longleftrightarrow> (\<forall>q. \<not> walk h maze start t q)) \<and>
         (path \<noteq> [] \<longrightarrow> hd path = t) \<and>
         successively (\<lambda>c d. step h maze d c) path \<and>
         set path \<subseteq> maze_cells maze \<and>
         (\<forall>c \<in> set (butlast path). gScore_native s c \<noteq> None \<and> fScore_native s c \<noteq> None) \<and>
         gScore_native s start = Some (Num 0) \<and>
         fScore_native s start = Some (cost (h start) (h t))"
proof -
  from inv have str: "inv_struct maze s" and sta: "inv_start h start t s"
    and rea: "inv_reach h maze start s" and lnk: "inv_link h maze s"
    by (simp_all add: search_inv_def)
  from sta have g: "gScore_native s start = Some (Num 0)"
    and f: "fScore_native s start = Some (cost (h start) (h t))"
    by (simp_all add: inv_start_def)
  from res show ?thesis
    unfolding search_result_def
  proof (elim disjE conjE exE)
    assume "path = []" "\<forall>q. \<not> walk h maze start t q"
    with g f show ?thesis by simp
  next
    fix q assume p: "path = t # q" and v: "t \<in> visited s"
      and l: "links h (cameFrom_native s) t q"
    from rea v obtain w where w: "walk h maze start t w" unfolding inv_reach_def by blast
    from links_steps [OF str lnk t l]
    have 1: "successively (\<lambda>c d. step h maze d c) (t # q)"
      and 2: "set q \<subseteq> maze_cells maze"
      and 3: "\<forall>c \<in> set (butlast (t # q)).
          gScore_native s c \<noteq> None \<and> fScore_native s c \<noteq> None"
      by blast+
    from w have 4: "\<not> (\<forall>q. \<not> walk h maze start t q)" by blast
    from 2 t have 5: "set (t # q) \<subseteq> maze_cells maze" by simp
    from 1 3 4 5 g f show ?thesis unfolding p by simp
  qed
qed

lemma getPath_struct:
  assumes wf: "maze_wf u h maze" and pk: "props_ok h maze n"
    and start: "start \<in> maze_cells maze" and t: "t \<in> maze_cells maze"
  shows "\<exists>path h'. getPath maze start t (h, n) = Some (Inr path, h', Suc (Suc n)) \<and>
     getPath_native h maze start t = Some path \<and>
     (\<forall>k. card (maze_cells maze) \<le> k \<longrightarrow>
        getPath_within k maze start t (h, n) = Some (Inr path, h', Suc (Suc n))) \<and>
     frame maze n h h' \<and> props_ok h' maze (Suc (Suc n)) \<and>
     (path = [] \<longleftrightarrow> (\<forall>q. \<not> maze_path h maze start t q)) \<and>
     (path \<noteq> [] \<longrightarrow> hd path = t) \<and>
     successively (\<lambda>c d. step h maze d c) path \<and>
     (\<forall>c \<in> set (butlast path).
        props (h' c) (''weakmap'' @ string_of_nat n) \<noteq> None \<and>
        props (h' c) (''weakmap'' @ string_of_nat (Suc n)) \<noteq> None) \<and>
     props (h' start) (''weakmap'' @ string_of_nat n) = Some (Num 0) \<and>
     props (h' start) (''weakmap'' @ string_of_nat (Suc n)) = Some (cost (h start) (h t))"
proof -
  have "same_fields (h r) (h r)" for r by (simp add: same_fields_def)
  from getPath_refines [OF wf this pk start t] obtain path h' s0 cur where
    nat: "getPath_native h maze start t = Some path"
    and run: "getPath maze start t (h, n) = Some (Inr path, h', Suc (Suc n))"
    and wit: "\<forall>k. card (maze_cells maze) \<le> k \<longrightarrow>
        getPath_within k maze start t (h, n) = Some (Inr path, h', Suc (Suc n))"
    and fr: "frame maze n h h'" and pk': "props_ok h' maze (Suc (Suc n))"
    and inv: "search_inv h maze start t cur UNIV s0"
    and res: "search_result h maze start t s0 path"
    and sc: "\<forall>r \<in> maze_cells maze.
        props (h' r) (''weakmap'' @ string_of_nat n) = gScore_native s0 r \<and>
        props (h' r) (''weakmap'' @ string_of_nat (Suc n)) = fScore_native s0 r"
    by blast
  from search_result_facts [OF wf t inv res]
  have 1: "path = [] \<longleftrightarrow> (\<forall>q. \<not> walk h maze start t q)"
    and 2: "path \<noteq> [] \<longrightarrow> hd path = t"
    and 3: "successively (\<lambda>c d. step h maze d c) path"
    and 4: "set path \<subseteq> maze_cells maze"
    and 5: "\<forall>c \<in> set (butlast path). gScore_native s0 c \<noteq> None \<and> fScore_native s0 c \<noteq> None"
    and 6: "gScore_native s0 start = Some (Num 0)"
    and 7: "fScore_native s0 start = Some (cost (h start) (h t))"
    by blast+
  from 1 have e1: "path = [] \<longleftrightarrow> (\<forall>q. \<not> maze_path h maze start t q)"
    unfolding maze_path_walk [OF wf start] .
  have e5: "props (h' c) (''weakmap'' @ string_of_nat n) \<noteq> None \<and>
      props (h' c) (''weakmap'' @ string_of_nat (Suc n)) \<noteq> None"
    if "c \<in> set (butlast path)" for c
  proof -
    from that have "c \<in> set path" by (rule in_set_butlastD)
    with 4 have "c \<in> maze_cells maze" by blast
    with sc 5 that show ?thesis by simp
  qed
  from sc start 6 7
  have e6: "props (h' start) (''weakmap'' @ string_of_nat n) = Some (Num 0)"
    and e7: "props (h' start) (''weakmap'' @ string_of_nat (Suc n))
        = Some (cost (h start) (h t))"
    by simp_all
  from run nat wit fr pk' e1 2 3 e5 e6 e7 show ?thesis by blast
qed

text \<open>A chain of moves, read backwards, consists of adjacent cells, all but the last unblocked.\<close>

lemma steps_adjacent:
  assumes wf: "maze_wf u h maze"
  shows "successively (\<lambda>c d. step h maze d c) path \<Longrightarrow>
     successively (\<lambda>c d. adjacent4 (h c) (h d)) path"
proof (rule successively_mono)
  fix c d assume "step h maze d c"
  then have "adjacent4 (h d) (h c)" by (simp add: wf_step_iff [OF wf])
  then show "adjacent4 (h c) (h d)" by (auto simp: adjacent4_def)
qed

lemma steps_unblocked:
  assumes wf: "maze_wf u h maze"
  shows "successively (\<lambda>c d. step h maze d c) path \<Longrightarrow>
     list_all (\<lambda>c. \<not> isBlock (h c)) (butlast path)"
proof (induction path)
  case Nil
  then show ?case by simp
next
  case (Cons c path)
  show ?case
  proof (cases path)
    case Nil
    then show ?thesis by simp
  next
    case (Cons d path')
    with Cons.prems have "step h maze d c" and "successively (\<lambda>c d. step h maze d c) path"
      by simp_all
    with Cons.IH wf Cons show ?thesis by (simp add: wf_step_iff)
  qed
qed

text \<open>With exact scores the returned sequence is a shortest path, read backwards.\<close>

lemma shortest_result_paths:
  assumes wf: "maze_wf u h maze" and a: "a \<in> maze_cells maze"
  shows "shortest_result h maze a b path \<longleftrightarrow>
     (path = [] \<and> (\<forall>q. \<not> maze_path h maze a b q)) \<or>
     (path \<noteq> [] \<and> maze_path h maze a b (rev path) \<and>
        (\<forall>q. maze_path h maze a b q \<longrightarrow> length path \<le> length q))"
  unfolding shortest_result_def maze_path_walk [OF wf a] ..

lemma getPath_spec:
  assumes wf: "maze_wf u h maze" and ex: "exact_range u maze" and pk: "props_ok h maze n"
    and start: "start \<in> maze_cells maze" and t: "t \<in> maze_cells maze"
  shows "\<exists>path. getPath maze start t (h, n) \<noteq> None \<and>
     returned (getPath maze start t (h, n)) = Some (Inr path) \<and>
     ((path = [] \<and> (\<forall>q. \<not> maze_path h maze start t q)) \<or>
      (path \<noteq> [] \<and> maze_path h maze start t (rev path) \<and>
        (\<forall>q. maze_path h maze start t q \<longrightarrow> length path \<le> length q)))"
proof -
  from getPath_struct [OF wf pk start t] obtain path h' where
    run: "getPath maze start t (h, n) = Some (Inr path, h', Suc (Suc n))"
    and nat: "getPath_native h maze start t = Some path"
    by blast
  from getPath_native_correct [OF wf ex start t] nat
  have "shortest_result h maze start t path" by simp
  with run show ?thesis
    unfolding shortest_result_paths [OF wf start] by (simp add: returned_def)
qed

subsection \<open>A maze without blocked cells\<close>

lemma rectangular_row:
  assumes "rectangular maze" "a < length maze" "a' < length maze"
  shows "length (maze ! a) = length (maze ! a')"
  using assms unfolding rectangular_def list_all_iff by (metis nth_mem)

lemma monotone_walk:
  assumes wf: "maze_wf u h maze" and rect: "rectangular maze"
    and free: "\<forall>r \<in> maze_cells maze. \<not> isBlock (h r)"
    and b: "b \<in> maze_cells maze"
  shows "a \<in> maze_cells maze \<Longrightarrow>
     \<exists>q. walk h maze a b q \<and>
       int (length q) = \<bar>ui (h a) - ui (h b)\<bar> + \<bar>uj (h a) - uj (h b)\<bar> + 1"
proof (induction "nat (\<bar>ui (h a) - ui (h b)\<bar> + \<bar>uj (h a) - uj (h b)\<bar>)" arbitrary: a rule: less_induct)
  case less
  note a = less.prems
  from wf a obtain i j where ij: "i < length maze" "j < length (maze ! i)" "a = maze ! i ! j"
    "unit_at u (h a) i j" by (rule wf_cell_at)
  from wf b obtain i2 j2 where ij2: "i2 < length maze" "j2 < length (maze ! i2)" "b = maze ! i2 ! j2"
    "unit_at u (h b) i2 j2" by (rule wf_cell_at)
  from ij(4) ij2(4) have co: "ui (h a) = int i" "uj (h a) = int j" "ui (h b) = int i2" "uj (h b) = int j2"
    by (simp_all add: unit_at_def)
  show ?case
  proof (cases "i = i2 \<and> j = j2")
    case True
    with ij(3) ij2(3) have "a = b" by simp
    then have "walk h maze a b [a]" by (simp add: walk_single)
    with True co show ?thesis by (intro exI [of _ "[a]"]) simp
  next
    case False
    define i' where "i' = (if i < i2 then Suc i else if i2 < i then i - 1 else i)"
    define j' where "j' = (if i \<noteq> i2 then j else if j < j2 then Suc j else j - 1)"
    have i'l: "i' < length maze" using ij(1) ij2(1) by (auto simp: i'_def)
    have "j' < length (maze ! i)" using ij(2) ij2(2) False
      by (auto simp: j'_def)
    with rectangular_row [OF rect i'l ij(1)] have j'l: "j' < length (maze ! i')" by simp
    define a' where "a' = maze ! i' ! j'"
    from i'l j'l have a'c: "a' \<in> maze_cells maze" unfolding maze_cells_iff a'_def by blast
    from wf i'l j'l have "unit_at u (h a') i' j'" unfolding a'_def by (rule wf_unit_at)
    then have co': "ui (h a') = int i'" "uj (h a') = int j'" by (simp_all add: unit_at_def)
    have adj: "adjacent4 (h a) (h a')"
      using False unfolding adjacent4_def co co' i'_def j'_def by auto
    from free a'c have "\<not> isBlock (h a')" by blast
    with a'c adj have st: "step h maze a a'" by (simp add: wf_step_iff [OF wf])
    have dist: "\<bar>ui (h a) - ui (h b)\<bar> + \<bar>uj (h a) - uj (h b)\<bar>
        = \<bar>ui (h a') - ui (h b)\<bar> + \<bar>uj (h a') - uj (h b)\<bar> + 1"
      using False unfolding co co' i'_def j'_def by auto
    then have "nat (\<bar>ui (h a') - ui (h b)\<bar> + \<bar>uj (h a') - uj (h b)\<bar>)
        < nat (\<bar>ui (h a) - ui (h b)\<bar> + \<bar>uj (h a) - uj (h b)\<bar>)" by simp
    from less.hyps [OF this a'c] obtain q where q: "walk h maze a' b q"
      "int (length q) = \<bar>ui (h a') - ui (h b)\<bar> + \<bar>uj (h a') - uj (h b)\<bar> + 1" by blast
    from st q(1) have "walk h maze a b (a # q)" by (rule walk_Cons)
    moreover from q(2) dist have "int (length (a # q))
        = \<bar>ui (h a) - ui (h b)\<bar> + \<bar>uj (h a) - uj (h b)\<bar> + 1" by simp
    ultimately show ?thesis by blast
  qed
qed

subsection \<open>The scan picks the first least member\<close>

lemma first_min_snoc:
  assumes "first_min v pre c"
  shows "first_min v (pre @ [x]) (if v x < v c then x else c)"
proof -
  from assms obtain i where i: "i < length pre" "pre ! i = c"
    "\<forall>j < length pre. v c \<le> v (pre ! j)" "\<forall>j < i. v c < v (pre ! j)"
    unfolding first_min_def by blast
  show ?thesis
  proof (cases "v x < v c")
    case True
    have "\<forall>j < length (pre @ [x]). v x \<le> v ((pre @ [x]) ! j)"
      using i(3) True by (auto simp: nth_append less_Suc_eq intro: order.trans less_imp_le)
    moreover have "\<forall>j < length pre. v x < v ((pre @ [x]) ! j)"
      using i(3) True by (auto simp: nth_append)
    ultimately have "length pre < length (pre @ [x]) \<and> (pre @ [x]) ! length pre = x \<and>
        (\<forall>j < length (pre @ [x]). v x \<le> v ((pre @ [x]) ! j)) \<and>
        (\<forall>j < length pre. v x < v ((pre @ [x]) ! j))" by simp
    then have "first_min v (pre @ [x]) x" unfolding first_min_def by blast
    with True show ?thesis by simp
  next
    case False
    have "\<forall>j < length (pre @ [x]). v c \<le> v ((pre @ [x]) ! j)"
      using i(3) False by (auto simp: nth_append less_Suc_eq)
    moreover have "\<forall>j < i. v c < v ((pre @ [x]) ! j)"
      using i(1) i(4) by (auto simp: nth_append)
    moreover have "i < length (pre @ [x])" "(pre @ [x]) ! i = c"
      using i(1) i(2) by (simp_all add: nth_append)
    ultimately have "first_min v (pre @ [x]) c" unfolding first_min_def by blast
    with False show ?thesis by simp
  qed
qed

lemma pick_current_fold_first_min:
  "first_min (\<lambda>r. score (f r)) pre c \<Longrightarrow>
   \<forall>r \<in> insert c (set xs). \<exists>n. f r = Some (Num n) \<Longrightarrow>
   first_min (\<lambda>r. score (f r)) (pre @ xs) (pick_current f xs c)"
proof (induction xs arbitrary: pre c)
  case Nil
  then show ?case by (simp add: pick_current_def)
next
  case (Cons x xs)
  let ?c' = "if num_lt (ToNumber (f x)) (ToNumber (f c)) then x else c"
  from Cons.prems(2) obtain n m where n: "f x = Some (Num n)" and m: "f c = Some (Num m)"
    by auto
  then have c': "?c' = (if score (f x) < score (f c) then x else c)"
    by (simp add: ToNumber_def)
  from first_min_snoc [OF Cons.prems(1), of x]
  have 1: "first_min (\<lambda>r. score (f r)) (pre @ [x]) ?c'" unfolding c' .
  from Cons.prems(2) have 2: "\<forall>r \<in> insert ?c' (set xs). \<exists>n. f r = Some (Num n)" by auto
  from Cons.IH [OF 1 2] show ?case by (simp add: pick_current_def)
qed

lemma pick_current_first_min:
  assumes "\<forall>r \<in> set (first # rest). \<exists>n. f r = Some (Num n)"
  shows "first_min (\<lambda>r. score (f r)) (first # rest) (pick_current f (first # rest) first)"
proof -
  have 0: "first_min (\<lambda>r. score (f r)) [first] first" by (simp add: first_min_def)
  have e: "pick_current f (first # rest) first = pick_current f rest first"
    by (simp add: pick_current_def)
  from assms have "\<forall>r \<in> insert first (set rest). \<exists>n. f r = Some (Num n)" by simp
  from pick_current_fold_first_min [OF 0 this] show ?thesis unfolding e by simp
qed

subsection \<open>The example mazes\<close>

lemma scenarioA_wf: "maze_wf 10 scenarioA_store scenarioA_maze"
  unfolding scenarioA_store_def scenarioA_maze_def by (rule generateMaze_wf) simp

lemma scenarioA_props: "props_ok scenarioA_store scenarioA_maze n"
  unfolding scenarioA_store_def by (rule generateMaze_props_ok)

lemma scenarioA_cells: "r \<in> maze_cells scenarioA_maze \<longleftrightarrow> r < 9"
  by (simp add: scenarioA_maze_def generateMaze_cells)

lemma scenarioA_exact: "exact_range 10 scenarioA_maze"
proof -
  have "maze_cells scenarioA_maze = {r. r < 9}"
    by (simp add: scenarioA_maze_def generateMaze_cells)
  then have "card (maze_cells scenarioA_maze) = 9" by simp
  moreover have "length scenarioA_maze = 3"
    by (simp add: scenarioA_maze_def generateMaze_def Let_def maze_refs_length)
  ultimately show ?thesis by (simp add: exact_range_def)
qed

lemma scenarioA_rectangular: "rectangular scenarioA_maze"
  unfolding scenarioA_maze_def by (rule generateMaze_rectangular)

lemma scenarioA_free: "\<not> isBlock (scenarioA_store r)"
  by (simp add: scenarioA_store_def generateMaze_isBlock no_blocks_def)

lemma scenarioA_run:
  "returned (getPath scenarioA_maze 0 8 (scenarioA_store, 0)) = Some (Inr [8, 5, 2, 1, 0])"
  by code_simp

lemma scenarioA_path: "maze_path scenarioA_store scenarioA_maze 0 8 [0, 1, 2, 5, 8]"
  by code_simp

lemma scenarioB_wf: "maze_wf 10 scenarioB_store scenarioB_maze"
  unfolding scenarioB_store_def scenarioB_maze_def by (rule generateMaze_wf) simp

lemma scenarioB_props: "props_ok scenarioB_store scenarioB_maze n"
  unfolding scenarioB_store_def by (rule generateMaze_props_ok)

lemma scenarioB_cells: "r \<in> maze_cells scenarioB_maze \<longleftrightarrow> r < 3"
  by (simp add: scenarioB_maze_def generateMaze_cells)

lemma scenarioB_run:
  "returned (getPath scenarioB_maze 0 2 (scenarioB_store, 0)) = Some (Inr [])"
  by code_simp

lemma scenarioB_run_blocked_start:
  "returned (getPath scenarioB_maze 1 2 (scenarioB_store, 0)) = Some (Inr [2, 1])"
  by code_simp

lemma scenarioC_wf: "maze_wf 10 scenarioC_store scenarioC_maze"
  unfolding scenarioC_store_def scenarioC_maze_def by (rule generateMaze_wf) simp

lemma scenarioC_props: "props_ok scenarioC_store scenarioC_maze n"
  unfolding scenarioC_store_def by (rule generateMaze_props_ok)

lemma scenarioC_cells: "r \<in> maze_cells scenarioC_maze \<longleftrightarrow> r < 9"
  by (simp add: scenarioC_maze_def generateMaze_cells)

lemma scenarioC_run:
  "returned (getPath scenarioC_maze 0 8 (scenarioC_store, 0)) = Some (Inr [8, 5, 4, 3, 0])"
  by code_simp

subsection \<open>Start and target the same cell\<close>

lemma getPath_self:
  "getPath maze a a (h, n) =
     Some (Inr [a],
           MyWeakMap_set (''weakmap'' @ string_of_nat (Suc n)) a (cost (h a) (h a))
             (MyWeakMap_set (''weakmap'' @ string_of_nat n) a (Num 0) h),
           Suc (Suc n))"
proof -
  let ?g = "''weakmap'' @ string_of_nat n" and ?f = "''weakmap'' @ string_of_nat (Suc n)"
  let ?s = "init_search h n a a"
  have 1: "set_size (openSet ?s) \<noteq> 0" by (simp add: init_search_def keyed_def)
  have 2: "MySet_values (openSet ?s) = [a]" by (simp add: init_search_def MySet_values_keyed)
  have 3: "pick_current f [a] a = a" for f by (simp add: pick_current_def)
  have 4: "buildPath (cells ?s) (cameFrom ?s) a = Some [a]"
    by (simp add: buildPath_def bp_Some bp_None init_search_def)
  have "getPath_loop maze a ?g ?f ?s = Some (?s, Inr [a])"
    by (subst getPath_loop.simps) (simp add: 1 2 3 4 Let_def)
  then show ?thesis by (simp add: getPath_unfold) (simp add: init_search_def)
qed

section \<open>The claims\<close>

text \<open>
  Throughout, a call \<^verbatim>\<open>getPath(maze, startPoint, targetPoint)\<close> is made on a
  well-formed maze, in a store whose hidden properties come from earlier calls, for a
  start and a target that are cells of the maze. A path may stand on a blocked start
  cell: the search never looks at the flag of the cell it starts from.

  The claims C1 and C2 depend on the scores and are stated for mazes of the size
  \<open>exact_range\<close>, in which no score is rounded. Beyond it a sum of pixel distances can
  be rounded or become \<^verbatim>\<open>Infinity\<close>; a cell whose tentative score is \<^verbatim>\<open>Infinity\<close>
  is opened without a link, and \<^verbatim>\<open>buildPath\<close> stops at such a cell. The other claims
  hold whatever the scores are.
\<close>

text \<open>
  C1. In a maze of the size \<open>exact_range\<close>: when a path from the start to the target
  exists, \<^verbatim>\<open>getPath\<close> returns a non-empty sequence which, read backwards, is such a
  path, and whose cost (the number of cells minus one, times the unit size) is at most
  the cost of every path from the start to the target. On a rectangular maze without
  blocked cells the returned sequence has
  \<open>|col(start) - col(target)| + |row(start) - row(target)| + 1\<close> cells.
\<close>

theorem getPath_shortest:
  assumes "maze_wf unitSize h maze" and "exact_range unitSize maze"
    and "props_ok h maze instanceCount"
    and "startPoint \<in> maze_cells maze" and "targetPoint \<in> maze_cells maze"
  shows "((\<exists>p. maze_path h maze startPoint targetPoint p) \<longrightarrow>
           (\<exists>path. returned (getPath maze startPoint targetPoint (h, instanceCount))
                      = Some (Inr path) \<and>
              path \<noteq> [] \<and> maze_path h maze startPoint targetPoint (rev path) \<and>
              (\<forall>q. maze_path h maze startPoint targetPoint q \<longrightarrow>
                 unitSize * (int (length path) - 1) \<le> unitSize * (int (length q) - 1)))) \<and>
         (rectangular maze \<and> (\<forall>r \<in> maze_cells maze. \<not> isBlock (h r)) \<longrightarrow>
           (\<exists>path. returned (getPath maze startPoint targetPoint (h, instanceCount))
                      = Some (Inr path) \<and>
              int (length path) =
                \<bar>ui (h startPoint) - ui (h targetPoint)\<bar>
                + \<bar>uj (h startPoint) - uj (h targetPoint)\<bar> + 1))"
proof -
  have u: "0 < unitSize" using assms(1) by (rule wf_pos)
  from getPath_spec [OF assms] obtain path where
    ret: "returned (getPath maze startPoint targetPoint (h, instanceCount)) = Some (Inr path)"
    and sh: "(path = [] \<and> (\<forall>q. \<not> maze_path h maze startPoint targetPoint q)) \<or>
      (path \<noteq> [] \<and> maze_path h maze startPoint targetPoint (rev path) \<and>
        (\<forall>q. maze_path h maze startPoint targetPoint q \<longrightarrow> length path \<le> length q))"
    by blast
  have found: "path \<noteq> [] \<and> maze_path h maze startPoint targetPoint (rev path) \<and>
      (\<forall>q. maze_path h maze startPoint targetPoint q \<longrightarrow> length path \<le> length q)"
    if "maze_path h maze startPoint targetPoint p" for p
    using sh that by blast
  have 1: "\<exists>path. returned (getPath maze startPoint targetPoint (h, instanceCount))
                      = Some (Inr path) \<and>
              path \<noteq> [] \<and> maze_path h maze startPoint targetPoint (rev path) \<and>
              (\<forall>q. maze_path h maze startPoint targetPoint q \<longrightarrow>
                 unitSize * (int (length path) - 1) \<le> unitSize * (int (length q) - 1))"
    if "\<exists>p. maze_path h maze startPoint targetPoint p"
  proof -
    from that found have f: "path \<noteq> []" "maze_path h maze startPoint targetPoint (rev path)"
      "\<And>q. maze_path h maze startPoint targetPoint q \<Longrightarrow> length path \<le> length q"
      by blast+
    have "unitSize * (int (length path) - 1) \<le> unitSize * (int (length q) - 1)"
      if "maze_path h maze startPoint targetPoint q" for q
      using f(3) [OF that] u by simp
    with ret f(1) f(2) show ?thesis by blast
  qed
  have 2: "\<exists>path. returned (getPath maze startPoint targetPoint (h, instanceCount))
                      = Some (Inr path) \<and>
              int (length path) =
                \<bar>ui (h startPoint) - ui (h targetPoint)\<bar>
                + \<bar>uj (h startPoint) - uj (h targetPoint)\<bar> + 1"
    if "rectangular maze \<and> (\<forall>r \<in> maze_cells maze. \<not> isBlock (h r))"
  proof -
    from that have rect: "rectangular maze"
      and free: "\<forall>r \<in> maze_cells maze. \<not> isBlock (h r)" by simp_all
    from monotone_walk [OF assms(1) rect free assms(5) assms(4)] obtain q where
      q: "walk h maze startPoint targetPoint q"
      "int (length q) = \<bar>ui (h startPoint) - ui (h targetPoint)\<bar>
          + \<bar>uj (h startPoint) - uj (h targetPoint)\<bar> + 1" by blast
    from q(1) have mq: "maze_path h maze startPoint targetPoint q"
      by (simp add: maze_path_walk [OF assms(1) assms(4)])
    from found [OF mq] have le: "length path \<le> length q"
      and mp: "maze_path h maze startPoint targetPoint (rev path)" using mq by blast+
    from mp have "walk h maze startPoint targetPoint (rev path)"
      by (simp add: maze_path_walk [OF assms(1) assms(4)])
    from walk_lower_bound [OF assms(1) assms(4) this] q(2) le
    have "int (length path) = \<bar>ui (h startPoint) - ui (h targetPoint)\<bar>
          + \<bar>uj (h startPoint) - uj (h targetPoint)\<bar> + 1" by simp
    with ret show ?thesis by blast
  qed
  from 1 2 show ?thesis by blast
qed

theorem getPath_shortest_witness:
  "\<exists>path. returned (getPath scenarioA_maze 0 8 (scenarioA_store, 0)) = Some (Inr path) \<and>
     maze_path scenarioA_store scenarioA_maze 0 8 (rev path) \<and>
     length path \<le> length [0::nat, 1, 2, 5, 8] \<and> length path = 5"
proof -
  have s: "0 \<in> maze_cells scenarioA_maze" and t: "8 \<in> maze_cells scenarioA_maze"
    by (simp_all add: scenarioA_cells)
  note main = getPath_shortest [OF scenarioA_wf scenarioA_exact scenarioA_props [of 0] s t]
  have "\<exists>p. maze_path scenarioA_store scenarioA_maze 0 8 p"
    using scenarioA_path by blast
  with main obtain path where
    1: "returned (getPath scenarioA_maze 0 8 (scenarioA_store, 0)) = Some (Inr path)"
    and 2: "maze_path scenarioA_store scenarioA_maze 0 8 (rev path)"
    and 3: "\<And>q. maze_path scenarioA_store scenarioA_maze 0 8 q \<Longrightarrow>
        10 * (int (length path) - 1) \<le> 10 * (int (length q) - 1)"
    by blast
  from 3 [OF scenarioA_path] have 4: "length path \<le> length [0::nat, 1, 2, 5, 8]" by simp
  have "rectangular scenarioA_maze \<and> (\<forall>r \<in> maze_cells scenarioA_maze. \<not> isBlock (scenarioA_store r))"
    by (simp add: scenarioA_rectangular scenarioA_free)
  with main obtain path' where
    5: "returned (getPath scenarioA_maze 0 8 (scenarioA_store, 0)) = Some (Inr path')"
    and 6: "int (length path') =
        \<bar>ui (scenarioA_store 0) - ui (scenarioA_store 8)\<bar>
        + \<bar>uj (scenarioA_store 0) - uj (scenarioA_store 8)\<bar> + 1"
    by blast
  have "ui (scenarioA_store 0) = 0" "ui (scenarioA_store 8) = 2"
    "uj (scenarioA_store 0) = 0" "uj (scenarioA_store 8) = 2"
    by (simp_all add: scenarioA_store_def generateMaze_coords)
  with 6 have "length path' = 5" by simp
  moreover from 1 5 have "path' = path" by simp
  ultimately show ?thesis using 1 2 4 by blast
qed

text \<open>
  C2. In a maze of the size \<open>exact_range\<close>: when \<^verbatim>\<open>getPath\<close> returns a non-empty
  sequence, its first element is the target cell and its last element is the start cell,
  so they carry the coordinates of the target and of the start: the path is returned
  target first, start last.
\<close>

theorem getPath_endpoints:
  assumes "maze_wf unitSize h maze" and "exact_range unitSize maze"
    and "props_ok h maze instanceCount"
    and "startPoint \<in> maze_cells maze" and "targetPoint \<in> maze_cells maze"
    and "returned (getPath maze startPoint targetPoint (h, instanceCount)) = Some (Inr path)"
    and "path \<noteq> []"
  shows "hd path = targetPoint \<and> last path = startPoint \<and>
         ui (h (hd path)) = ui (h targetPoint) \<and> uj (h (hd path)) = uj (h targetPoint) \<and>
         ui (h (last path)) = ui (h startPoint) \<and> uj (h (last path)) = uj (h startPoint)"
proof -
  from getPath_spec [OF assms(1-5)] assms(6) assms(7)
  have "maze_path h maze startPoint targetPoint (rev path)"
    by auto
  then have "hd (rev path) = startPoint" "last (rev path) = targetPoint"
    by (simp_all add: maze_path_def)
  with assms(7) have "last path = startPoint" "hd path = targetPoint"
    by (simp_all add: hd_rev last_rev)
  then show ?thesis by simp
qed

theorem getPath_endpoints_witness:
  "returned (getPath scenarioA_maze 0 8 (scenarioA_store, 0)) = Some (Inr [8, 5, 2, 1, 0]) \<and>
   hd [8, 5, 2, 1, 0] = (8::nat) \<and> last [8, 5, 2, 1, 0] = (0::nat) \<and>
   ui (scenarioA_store 8) = 2 \<and> uj (scenarioA_store 8) = 2"
proof -
  have s: "0 \<in> maze_cells scenarioA_maze" and t: "8 \<in> maze_cells scenarioA_maze"
    by (simp_all add: scenarioA_cells)
  have ne: "[8, 5, 2, 1, 0::nat] \<noteq> []" by simp
  from getPath_endpoints [OF scenarioA_wf scenarioA_exact scenarioA_props [of 0] s t
      scenarioA_run ne]
  have "hd [8, 5, 2, 1, 0] = (8::nat) \<and> last [8, 5, 2, 1, 0] = (0::nat)" by simp
  moreover have "ui (scenarioA_store 8) = 2 \<and> uj (scenarioA_store 8) = 2"
    by (simp add: scenarioA_store_def generateMaze_coords)
  ultimately show ?thesis using scenarioA_run by simp
qed

text \<open>
  C3 (as amended). \<^verbatim>\<open>getPath\<close> returns the empty sequence exactly when there is no
  path from the start to the target, a path being a sequence of 4-adjacent cells of the
  maze in which every cell after the first is unblocked: the start cell itself may be
  blocked, the search never reads its flag. When the start cell is unblocked, that is
  exactly when there is no path all of whose cells are unblocked. In scenario B (3 by 1
  cells, the middle one blocked, from cell (0,0) to cell (2,0)) the result is empty.
\<close>

theorem getPath_empty_iff:
  assumes "maze_wf unitSize h maze" and "props_ok h maze instanceCount"
    and "startPoint \<in> maze_cells maze" and "targetPoint \<in> maze_cells maze"
  shows "\<exists>path. returned (getPath maze startPoint targetPoint (h, instanceCount))
                   = Some (Inr path) \<and>
           (path = [] \<longleftrightarrow> \<not> (\<exists>p. maze_path h maze startPoint targetPoint p)) \<and>
           (\<not> isBlock (h startPoint) \<longrightarrow>
              (path = [] \<longleftrightarrow>
                 \<not> (\<exists>p. maze_path h maze startPoint targetPoint p \<and>
                         list_all (\<lambda>c. \<not> isBlock (h c)) p)))"
proof -
  from getPath_struct [OF assms] obtain path h' where
    run: "getPath maze startPoint targetPoint (h, instanceCount)
        = Some (Inr path, h', Suc (Suc instanceCount))"
    and e: "path = [] \<longleftrightarrow> (\<forall>q. \<not> maze_path h maze startPoint targetPoint q)"
    by blast
  from run
  have ret: "returned (getPath maze startPoint targetPoint (h, instanceCount)) = Some (Inr path)"
    by (simp add: returned_def)
  from e have 1: "path = [] \<longleftrightarrow> \<not> (\<exists>p. maze_path h maze startPoint targetPoint p)"
    by blast
  have "list_all (\<lambda>c. \<not> isBlock (h c)) p"
    if "\<not> isBlock (h startPoint)" "maze_path h maze startPoint targetPoint p" for p
  proof (cases p)
    case Nil
    then show ?thesis by simp
  next
    case (Cons c p')
    with that show ?thesis by (simp add: maze_path_def)
  qed
  with 1 have "\<not> isBlock (h startPoint) \<longrightarrow>
      (path = [] \<longleftrightarrow>
         \<not> (\<exists>p. maze_path h maze startPoint targetPoint p \<and>
                 list_all (\<lambda>c. \<not> isBlock (h c)) p))"
    by blast
  with ret 1 show ?thesis by blast
qed

theorem getPath_empty_iff_witness:
  "returned (getPath scenarioB_maze 0 2 (scenarioB_store, 0)) = Some (Inr []) \<and>
   \<not> (\<exists>p. maze_path scenarioB_store scenarioB_maze 0 2 p) \<and>
   \<not> isBlock (scenarioB_store 0) \<and>
   \<not> (\<exists>p. maze_path scenarioB_store scenarioB_maze 0 2 p \<and>
           list_all (\<lambda>c. \<not> isBlock (scenarioB_store c)) p)"
proof -
  have s: "0 \<in> maze_cells scenarioB_maze" and t: "2 \<in> maze_cells scenarioB_maze"
    by (simp_all add: scenarioB_cells)
  have "\<not> isBlock (scenarioB_store 0)"
    by (simp add: scenarioB_store_def generateMaze_isBlock scenarioB_blocks_def)
  with getPath_empty_iff [OF scenarioB_wf scenarioB_props [of 0] s t] scenarioB_run
  show ?thesis by simp
qed

text \<open>
  The claim C3 as it was stated, with paths of unblocked cells only, fails when the
  start cell is blocked: in scenario B, from the blocked cell (1,0) to the cell (2,0),
  no path of unblocked cells exists, and the call returns the two cells.
\<close>

theorem getPath_from_blocked_start:
  "isBlock (scenarioB_store 1) \<and>
   returned (getPath scenarioB_maze 1 2 (scenarioB_store, 0)) = Some (Inr [2, 1]) \<and>
   \<not> (\<exists>p. maze_path scenarioB_store scenarioB_maze 1 2 p \<and>
           list_all (\<lambda>c. \<not> isBlock (scenarioB_store c)) p)"
proof -
  have b: "isBlock (scenarioB_store 1)"
    by (simp add: scenarioB_store_def generateMaze_isBlock scenarioB_blocks_def)
  have "\<not> list_all (\<lambda>c. \<not> isBlock (scenarioB_store c)) p"
    if "maze_path scenarioB_store scenarioB_maze 1 2 p" for p
  proof (cases p)
    case Nil
    with that show ?thesis by (simp add: maze_path_def)
  next
    case (Cons c p')
    with that have "c = 1" by (simp add: maze_path_def)
    with Cons b show ?thesis by simp
  qed
  with b scenarioB_run_blocked_start show ?thesis by blast
qed

text \<open>
  C4 (as amended). \<^verbatim>\<open>getPath\<close> never writes to the arrays of the maze (the model
  passes the maze as a value) and leaves every declared field of every cell as it was.
  It does write to the cells: the two instances of \<^verbatim>\<open>MyWeakMap\<close> of a call store
  \<^verbatim>\<open>gScore\<close> and \<^verbatim>\<open>fScore\<close> on the cells themselves, as the properties
  \<^verbatim>\<open>weakmapN\<close> and \<^verbatim>\<open>weakmapN+1\<close>, where \<open>N\<close> is the static counter at the call.
  No cell of the maze has these two properties before the call.
  After the call the start cell has \<^verbatim>\<open>weakmapN\<close> equal to 0 and \<^verbatim>\<open>weakmapN+1\<close>
  equal to its cost to the target, every cell of the returned sequence but the last has
  both properties, and the counter has advanced by two. Every other property and every
  object outside the maze is untouched, the hidden properties are again those of
  instances below the counter, and as the names are fresh at each call, a second
  identical call returns the same sequence as the first.
\<close>

theorem getPath_frame:
  assumes "maze_wf unitSize h maze" and "props_ok h maze instanceCount"
    and "startPoint \<in> maze_cells maze" and "targetPoint \<in> maze_cells maze"
  shows "\<exists>path h'.
           getPath maze startPoint targetPoint (h, instanceCount)
             = Some (Inr path, h', Suc (Suc instanceCount)) \<and>
           (\<forall>r. same_fields (h' r) (h r)) \<and>
           (\<forall>r \<in> maze_cells maze.
              props (h r) (''weakmap'' @ string_of_nat instanceCount) = None \<and>
              props (h r) (''weakmap'' @ string_of_nat (Suc instanceCount)) = None) \<and>
           props (h' startPoint) (''weakmap'' @ string_of_nat instanceCount) = Some (Num 0) \<and>
           props (h' startPoint) (''weakmap'' @ string_of_nat (Suc instanceCount))
             = Some (cost (h startPoint) (h targetPoint)) \<and>
           (\<forall>c \<in> set (butlast path).
              props (h' c) (''weakmap'' @ string_of_nat instanceCount) \<noteq> None \<and>
              props (h' c) (''weakmap'' @ string_of_nat (Suc instanceCount)) \<noteq> None) \<and>
           (\<forall>r k. k \<noteq> ''weakmap'' @ string_of_nat instanceCount \<longrightarrow>
                  k \<noteq> ''weakmap'' @ string_of_nat (Suc instanceCount) \<longrightarrow>
                  props (h' r) k = props (h r) k) \<and>
           (\<forall>r. r \<notin> maze_cells maze \<longrightarrow> h' r = h r) \<and>
           props_ok h' maze (Suc (Suc instanceCount)) \<and>
           returned (getPath maze startPoint targetPoint (h', Suc (Suc instanceCount)))
             = Some (Inr path)"
proof -
  from getPath_struct [OF assms] obtain path h' where
    run: "getPath maze startPoint targetPoint (h, instanceCount)
        = Some (Inr path, h', Suc (Suc instanceCount))"
    and nat: "getPath_native h maze startPoint targetPoint = Some path"
    and fr: "frame maze instanceCount h h'"
    and pk': "props_ok h' maze (Suc (Suc instanceCount))"
    and kept: "\<forall>c \<in> set (butlast path).
        props (h' c) (''weakmap'' @ string_of_nat instanceCount) \<noteq> None \<and>
        props (h' c) (''weakmap'' @ string_of_nat (Suc instanceCount)) \<noteq> None"
    and g: "props (h' startPoint) (''weakmap'' @ string_of_nat instanceCount) = Some (Num 0)"
    and f: "props (h' startPoint) (''weakmap'' @ string_of_nat (Suc instanceCount))
        = Some (cost (h startPoint) (h targetPoint))"
    by blast
  from fr have sf: "\<And>r. same_fields (h' r) (h r)" by (simp add: frame_def)
  from getPath_refines [OF assms(1) sf pk' assms(3) assms(4)] nat
  have again: "returned (getPath maze startPoint targetPoint (h', Suc (Suc instanceCount)))
      = Some (Inr path)"
    by (auto simp: returned_def)
  have fresh: "\<forall>r \<in> maze_cells maze.
      props (h r) (''weakmap'' @ string_of_nat instanceCount) = None \<and>
      props (h r) (''weakmap'' @ string_of_nat (Suc instanceCount)) = None"
    using props_ok_fresh [OF assms(2)] by simp
  from run fr pk' kept g f again fresh show ?thesis unfolding frame_def by blast
qed

theorem getPath_frame_witness:
  "\<exists>path h'. getPath scenarioA_maze 0 8 (scenarioA_store, 0) = Some (Inr path, h', 2) \<and>
     same_fields (h' 4) (scenarioA_store 4) \<and>
     props (scenarioA_store 0) (''weakmap'' @ string_of_nat 0) = None \<and>
     props (h' 0) (''weakmap'' @ string_of_nat 0) = Some (Num 0) \<and>
     returned (getPath scenarioA_maze 0 8 (h', 2)) = Some (Inr path)"
proof -
  have s: "0 \<in> maze_cells scenarioA_maze" and t: "8 \<in> maze_cells scenarioA_maze"
    by (simp_all add: scenarioA_cells)
  have two: "Suc (Suc 0) = 2" by simp
  from getPath_frame [OF scenarioA_wf scenarioA_props [of 0] s t] s
  show ?thesis unfolding two by blast
qed

text \<open>
  The claim C4 as it was stated fails: after the call of scenario A the target cell
  carries the property \<^verbatim>\<open>weakmap0\<close> with the score 40, which it did not have before,
  and the static counter has moved from 0 to 2.
\<close>

theorem getPath_leaves_properties:
  "prop_after ''weakmap0'' 8 (getPath scenarioA_maze 0 8 (scenarioA_store, 0))
     = Some (Some (Num 40)) \<and>
   props (scenarioA_store 8) ''weakmap0'' = None \<and>
   counter_after (getPath scenarioA_maze 0 8 (scenarioA_store, 0)) = Some 2"
  by code_simp

text \<open>
  C5. \<^verbatim>\<open>getPath\<close> terminates: the loop over the open set and the loop of
  \<^verbatim>\<open>buildPath\<close> both come to an end, and the call returns a sequence without throwing.
  The loop over the open set returns within as many rounds as the maze has cells: each
  round moves one cell into the closed set, which holds cells of the maze without
  repetition, never the target, and is never put back into the open set;
  \<^verbatim>\<open>buildPath\<close> follows links, each of which leads to a cell that was closed before
  the cell it starts from.
\<close>

theorem getPath_terminates:
  assumes "maze_wf unitSize h maze" and "props_ok h maze instanceCount"
    and "startPoint \<in> maze_cells maze" and "targetPoint \<in> maze_cells maze"
  shows "\<exists>path. returned (getPath maze startPoint targetPoint (h, instanceCount))
                   = Some (Inr path) \<and>
           returned (getPath_within (card (maze_cells maze)) maze startPoint targetPoint
                       (h, instanceCount))
                   = Some (Inr path)"
proof -
  have "same_fields (h r) (h r)" for r by (simp add: same_fields_def)
  from getPath_refines [OF assms(1) this assms(2) assms(3) assms(4)]
  show ?thesis by (auto simp: returned_def)
qed

theorem getPath_terminates_witness:
  "(\<exists>path. returned (getPath scenarioC_maze 0 8 (scenarioC_store, 0)) = Some (Inr path) \<and>
      returned (getPath_within 9 scenarioC_maze 0 8 (scenarioC_store, 0)) = Some (Inr path)) \<and>
   returned (getPath_within 4 scenarioC_maze 0 8 (scenarioC_store, 0)) = None"
proof -
  have s: "0 \<in> maze_cells scenarioC_maze" and t: "8 \<in> maze_cells scenarioC_maze"
    by (simp_all add: scenarioC_cells)
  have "maze_cells scenarioC_maze = {r. r < 9}"
    by (simp add: scenarioC_maze_def generateMaze_cells)
  then have c: "card (maze_cells scenarioC_maze) = 9" by simp
  have "returned (getPath_within 4 scenarioC_maze 0 8 (scenarioC_store, 0)) = None"
    by code_simp
  with getPath_terminates [OF scenarioC_wf scenarioC_props [of 0] s t] show ?thesis
    unfolding c by simp
qed

text \<open>
  C6. Any two consecutive cells of the sequence returned by \<^verbatim>\<open>getPath\<close> are
  4-adjacent: their coordinates differ by exactly one in exactly one axis.
\<close>

theorem getPath_adjacent:
  assumes "maze_wf unitSize h maze" and "props_ok h maze instanceCount"
    and "startPoint \<in> maze_cells maze" and "targetPoint \<in> maze_cells maze"
    and "returned (getPath maze startPoint targetPoint (h, instanceCount)) = Some (Inr path)"
  shows "successively (\<lambda>c d. adjacent4 (h c) (h d)) path"
proof -
  from getPath_struct [OF assms(1-4)] assms(5)
  have "successively (\<lambda>c d. step h maze d c) path"
    by (auto simp: returned_def)
  then show ?thesis by (rule steps_adjacent [OF assms(1)])
qed

theorem getPath_adjacent_witness:
  "returned (getPath scenarioC_maze 0 8 (scenarioC_store, 0)) = Some (Inr [8, 5, 4, 3, 0]) \<and>
   successively (\<lambda>c d. adjacent4 (scenarioC_store c) (scenarioC_store d)) [8, 5, 4, 3, 0]"
proof -
  have s: "0 \<in> maze_cells scenarioC_maze" and t: "8 \<in> maze_cells scenarioC_maze"
    by (simp_all add: scenarioC_cells)
  from getPath_adjacent [OF scenarioC_wf scenarioC_props [of 0] s t scenarioC_run] scenarioC_run
  show ?thesis by simp
qed

text \<open>
  C7. For a cell \<open>a\<close> of the maze, \<^verbatim>\<open>getPath(maze, a, a)\<close> returns the one-element
  sequence \<open>[a]\<close>, whether \<open>a\<close> is blocked or not: the first cell taken from the open set
  is \<open>a\<close>, and the comparison of its coordinates with the target's comes before
  anything reads a blocked flag. (The computation uses nothing of the maze; the
  hypotheses name the inputs the claim is about.)
\<close>

theorem getPath_same_cell:
  assumes "maze_wf unitSize h maze" and "a \<in> maze_cells maze"
  shows "returned (getPath maze a a (h, instanceCount)) = Some (Inr [a])"
  by (simp add: getPath_self returned_def)

theorem getPath_same_cell_witness:
  "isBlock (blocked_store 0) \<and>
   returned (getPath blocked_maze 0 0 (blocked_store, 0)) = Some (Inr [0])"
proof -
  have wf: "maze_wf 10 blocked_store blocked_maze"
    unfolding blocked_store_def blocked_maze_def by (rule generateMaze_wf) simp
  have a: "0 \<in> maze_cells blocked_maze"
    by (simp add: blocked_maze_def generateMaze_cells)
  have "isBlock (blocked_store 0)"
    by (simp add: blocked_store_def generateMaze_isBlock all_blocks_def)
  with getPath_same_cell [OF wf a, of 0] show ?thesis by simp
qed

text \<open>
  C8. The two source variants of the search return the same sequence of cells, hence
  sequences with the same coordinates: the variant with \<^verbatim>\<open>MySet\<close>, \<^verbatim>\<open>MyWeakMap\<close> and
  the ids \<^verbatim>\<open>i:j\<close>, and the variant with the native \<^verbatim>\<open>Set\<close> and \<^verbatim>\<open>WeakMap\<close> and ids
  made of the pixel position.
\<close>

theorem getPath_variants_agree:
  assumes "maze_wf unitSize h maze" and "props_ok h maze instanceCount"
    and "startPoint \<in> maze_cells maze" and "targetPoint \<in> maze_cells maze"
  shows "\<exists>path. returned (getPath maze startPoint targetPoint (h, instanceCount))
                   = Some (Inr path) \<and>
           getPath_native h maze startPoint targetPoint = Some path"
proof -
  from getPath_struct [OF assms] obtain path h' where
    "getPath maze startPoint targetPoint (h, instanceCount)
        = Some (Inr path, h', Suc (Suc instanceCount))"
    and "getPath_native h maze startPoint targetPoint = Some path"
    by blast
  then show ?thesis by (auto simp: returned_def)
qed

theorem getPath_variants_agree_witness:
  "returned (getPath scenarioC_maze 0 8 (scenarioC_store, 0)) = Some (Inr [8, 5, 4, 3, 0]) \<and>
   getPath_native scenarioC_store scenarioC_maze 0 8 = Some [8, 5, 4, 3, 0]"
proof -
  have s: "0 \<in> maze_cells scenarioC_maze" and t: "8 \<in> maze_cells scenarioC_maze"
    by (simp_all add: scenarioC_cells)
  from getPath_variants_agree [OF scenarioC_wf scenarioC_props [of 0] s t] scenarioC_run
  show ?thesis by simp
qed

text \<open>
  C9. \<^verbatim>\<open>getPath\<close> is deterministic: two calls for the same maze, start and target
  return the same sequence, whatever the static counter of \<^verbatim>\<open>MyWeakMap\<close> is and
  whatever hidden properties earlier calls left on the cells. The scan for the least
  \<^verbatim>\<open>fScore\<close> picks the first member of the open set, in its iteration order, at which
  the score is least: it starts from the first member and moves on a strictly smaller
  score only.
\<close>

theorem getPath_deterministic:
  assumes "maze_wf unitSize h maze"
    and "props_ok h maze instanceCount" and "props_ok h2 maze instanceCount2"
    and "\<forall>r. same_fields (h2 r) (h r)"
    and "startPoint \<in> maze_cells maze" and "targetPoint \<in> maze_cells maze"
  shows "(\<exists>path. returned (getPath maze startPoint targetPoint (h, instanceCount))
                    = Some (Inr path) \<and>
            returned (getPath maze startPoint targetPoint (h2, instanceCount2))
                    = Some (Inr path)) \<and>
         ((\<forall>r \<in> set (first # rest). \<exists>m. fScore_get r = Some (Num m)) \<longrightarrow>
            first_min (\<lambda>r. score (fScore_get r)) (first # rest)
              (pick_current fScore_get (first # rest) first))"
proof -
  have sf1: "same_fields (h r) (h r)" for r by (simp add: same_fields_def)
  have sf2: "same_fields (h2 r) (h r)" for r using assms(4) by simp
  from getPath_refines [OF assms(1) sf1 assms(2) assms(5) assms(6)] obtain path where
    1: "getPath_native h maze startPoint targetPoint = Some path"
    and 2: "returned (getPath maze startPoint targetPoint (h, instanceCount)) = Some (Inr path)"
    by (auto simp: returned_def)
  from getPath_refines [OF assms(1) sf2 assms(3) assms(5) assms(6)] 1
  have 3: "returned (getPath maze startPoint targetPoint (h2, instanceCount2)) = Some (Inr path)"
    by (auto simp: returned_def)
  from 2 3 pick_current_first_min [of first rest fScore_get] show ?thesis by blast
qed

theorem getPath_deterministic_witness:
  "returned (getPath scenarioA_maze 0 8 (scenarioA_store, 0))
     = returned (getPath scenarioA_maze 0 8 (scenarioA_store, 6)) \<and>
   first_min (\<lambda>r. score (tie_scores r)) [1, 3, 4] (pick_current tie_scores [1, 3, 4] 1) \<and>
   pick_current tie_scores [1, 3, 4] 1 = 1 \<and>
   pick_current tie_scores [1, 3, 5, 4] 1 = 5"
proof -
  have s: "0 \<in> maze_cells scenarioA_maze" and t: "8 \<in> maze_cells scenarioA_maze"
    by (simp_all add: scenarioA_cells)
  have sf: "\<forall>r. same_fields (scenarioA_store r) (scenarioA_store r)"
    by (simp add: same_fields_def)
  have num: "\<forall>r \<in> set [1, 3, 4]. \<exists>m. tie_scores r = Some (Num m)"
    by (simp add: tie_scores_def)
  from getPath_deterministic [OF scenarioA_wf scenarioA_props [of 0] scenarioA_props [of 6]
      sf s t, of 1 "[3, 4]" tie_scores] num
  have "returned (getPath scenarioA_maze 0 8 (scenarioA_store, 0))
     = returned (getPath scenarioA_maze 0 8 (scenarioA_store, 6))"
    and "first_min (\<lambda>r. score (tie_scores r)) [1, 3, 4] (pick_current tie_scores [1, 3, 4] 1)"
    by auto
  moreover have "pick_current tie_scores [1, 3, 4] 1 = 1"
    "pick_current tie_scores [1, 3, 5, 4] 1 = 5"
    by (simp_all add: pick_current_def tie_scores_def ToNumber_def)
  ultimately show ?thesis by simp
qed

text \<open>
  C10. In a sequence returned by \<^verbatim>\<open>getPath\<close>, every cell but the last one (the start)
  is unblocked, also when the start cell is blocked.
\<close>

theorem getPath_unblocked:
  assumes "maze_wf unitSize h maze" and "props_ok h maze instanceCount"
    and "startPoint \<in> maze_cells maze" and "targetPoint \<in> maze_cells maze"
    and "returned (getPath maze startPoint targetPoint (h, instanceCount)) = Some (Inr path)"
  shows "list_all (\<lambda>c. \<not> isBlock (h c)) (butlast path)"
proof -
  from getPath_struct [OF assms(1-4)] assms(5)
  have "successively (\<lambda>c d. step h maze d c) path"
    by (auto simp: returned_def)
  then show ?thesis by (rule steps_unblocked [OF assms(1)])
qed

theorem getPath_unblocked_witness:
  "isBlock (scenarioB_store 1) \<and>
   returned (getPath scenarioB_maze 1 2 (scenarioB_store, 0)) = Some (Inr [2, 1]) \<and>
   list_all (\<lambda>c. \<not> isBlock (scenarioB_store c)) (butlast [2, 1])"
proof -
  have s: "1 \<in> maze_cells scenarioB_maze" and t: "2 \<in> maze_cells scenarioB_maze"
    by (simp_all add: scenarioB_cells)
  have "isBlock (scenarioB_store 1)"
    by (simp add: scenarioB_store_def generateMaze_isBlock scenarioB_blocks_def)
  with getPath_unblocked [OF scenarioB_wf scenarioB_props [of 0] s t scenarioB_run_blocked_start]
    scenarioB_run_blocked_start
  show ?thesis by simp
qed

end
